theory Spec2Isabelle
  imports Main "HOL-Library.Word" "HOL-Library.Multiset" "HOL-Library.Code_Target_Nat"
begin

unbundle bit_operations_syntax

section \<open>The hopscotch map of hopscotch\_map.h\<close>

text \<open>
  The class template \<open>hopscotch_map<Key, T, Hash, KeyEqual, Allocator, NeighborhoodSize,
  GrowthFactor>\<close> is embedded as functions over explicit state.

  \<^item> The template parameters and the two function objects fixed at construction are the
    record \<open>config\<close>: \<open>NeighborhoodSize\<close>, the \<open>std::ratio\<close> of \<open>GrowthFactor\<close>, the hash
    (its \<open>std::size_t\<close> result read as a natural number), the key equality, and whether
    \<open>value_type\<close> is nothrow move constructible (which of the two \<open>rehash_internal\<close>
    overloads is compiled in).
  \<^item> Floating point is not computed here. \<open>m_max_load_factor\<close> is a \<open>float\<close>, kept as
    its mantissa and exponent, and the three places of the source that round are fields
    of \<open>config\<close>, one function each: \<open>static_cast<size_type>(bucket_count() *
    m_max_load_factor)\<close>, \<open>static_cast<size_type>(std::ceil(x / max_load_factor()))\<close> and
    \<open>static_cast<size_type>(std::ceil(bucket_count() *
    REHASH_SIZE_MULTIPLICATION_FACTOR))\<close>. A theorem about an arbitrary \<open>config\<close> holds for
    every such function, so also for the one the machine computes.
  \<^item> \<open>std::size_t\<close> values are natural numbers and the wrap-around at \<open>2 ^ 64\<close> is written
    out where the source adds to or subtracts from a bucket count. The length of the
    bucket array is limited by the vector's \<open>max_size()\<close>, a field of \<open>config\<close>; running
    out of memory is not modelled.
  \<^item> A bucket is its metadata word \<open>m_neighborhood_infos\<close> and its storage. The metadata
    word is the 64-bit instance of \<open>neighborhood_bitmap\<close>; the narrower instances chosen
    for small \<open>NeighborhoodSize\<close> hold the same values, since no bit above
    \<open>NeighborhoodSize + 1\<close> is ever set. The aligned storage is \<open>None\<close> while no pair is
    constructed in it.
  \<^item> Iterators are the source's triple of bucket iterator, bucket end iterator and
    overflow iterator, each an index (the container's length stands for its end).
  \<^item> A call that does not return a result is a value of \<open>error\<close>: the exception of \<open>at\<close>
    and of \<open>std::vector::resize\<close>, the undefined behaviour of \<open>hash % 0\<close> and of indexing
    the bucket array at or past its end, and a call that does not return at all.
    \<open>insert_internal\<close> calls \<open>rehash_internal\<close>, which calls \<open>insert_internal\<close> on a new
    map, and then calls itself again; the nesting is bounded by a fuel argument and
    \<open>no_return\<close> is also the result when the fuel ran out.
  \<^item> Assertions are not executed (an \<open>NDEBUG\<close> build).
\<close>

type_synonym float32 = "int \<times> int"

datatype error = out_of_range | length_error | division_by_zero | out_of_bounds | no_return

record 'k config =
  NeighborhoodSize :: nat
  GrowthFactor_num :: nat
  GrowthFactor_den :: nat
  nothrow_move_constructible :: bool
  m_hash :: "'k \<Rightarrow> nat"
  m_key_equal :: "'k \<Rightarrow> 'k \<Rightarrow> bool"
  max_size :: nat
  float_product_to_size :: "nat \<Rightarrow> float32 \<Rightarrow> nat"
  float_ceil_quotient_to_size :: "nat \<Rightarrow> float32 \<Rightarrow> nat"
  double_ceil_growth_to_size :: "nat \<Rightarrow> nat"

record ('k, 'v) hopscotch_bucket =
  m_neighborhood_infos :: "64 word"
  m_key_value :: "('k \<times> 'v) option"

record ('k, 'v) hopscotch_map =
  m_buckets :: "('k, 'v) hopscotch_bucket list"
  m_overflow_elements :: "('k \<times> 'v) list"
  m_nb_elements :: nat
  m_max_load_factor :: float32
  m_load_threshold :: nat

record hopscotch_iterator =
  m_buckets_iterator :: nat
  m_buckets_end_iterator :: nat
  m_overflow_iterator :: nat

subsection \<open>Constants\<close>

definition NB_RESERVED_BITS_IN_NEIGHBORHOOD :: nat where
  "NB_RESERVED_BITS_IN_NEIGHBORHOOD = 2"

definition MAX_NEIGHBORHOOD_SIZE :: nat where
  "MAX_NEIGHBORHOOD_SIZE = 64 - NB_RESERVED_BITS_IN_NEIGHBORHOOD"

definition DEFAULT_INIT_BUCKETS_SIZE :: nat where
  "DEFAULT_INIT_BUCKETS_SIZE = 16"

definition MAX_LINEAR_PROBE_SEARCH_EMPTY_BUCKET :: nat where
  "MAX_LINEAR_PROBE_SEARCH_EMPTY_BUCKET = 4096"

text \<open>\<open>0.9f\<close>, the \<open>float\<close> nearest to 0.9: \<open>15099494 * 2 ^ -24\<close>.\<close>

definition DEFAULT_MAX_LOAD_FACTOR :: float32 where
  "DEFAULT_MAX_LOAD_FACTOR = (15099494, - 24)"

definition is_power_of_two :: "nat \<Rightarrow> bool" where
  "is_power_of_two v \<longleftrightarrow> v \<noteq> 0 \<and> v AND (v - 1) = 0"

text \<open>
  \<open>USE_POWER_OF_TWO_MOD\<close>. For two powers of two the quotient \<open>1.0 * num / den\<close> is exact,
  and it survives the round trip through \<open>std::size_t\<close> exactly when it is an integer.
\<close>

definition USE_POWER_OF_TWO_MOD :: "'k config \<Rightarrow> bool" where
  "USE_POWER_OF_TWO_MOD cfg \<longleftrightarrow>
     is_power_of_two (GrowthFactor_num cfg) \<and> is_power_of_two (GrowthFactor_den cfg) \<and>
     (GrowthFactor_num cfg div GrowthFactor_den cfg) * GrowthFactor_den cfg = GrowthFactor_num cfg"

text \<open>
  The two \<open>static_assert\<close>s on \<open>NeighborhoodSize\<close>. The third one, that the growth factor
  is at least 1.1, is evaluated in \<open>double\<close>; no theorem below needs it.
\<close>

definition static_asserts :: "'k config \<Rightarrow> bool" where
  "static_asserts cfg \<longleftrightarrow>
     0 < NeighborhoodSize cfg \<and> NeighborhoodSize cfg \<le> MAX_NEIGHBORHOOD_SIZE"

subsection \<open>hopscotch\_bucket\<close>

definition empty_bucket :: "('k, 'v) hopscotch_bucket" where
  "empty_bucket = \<lparr>m_neighborhood_infos = 0, m_key_value = None\<rparr>"

definition get_neighborhood_infos :: "('k, 'v) hopscotch_bucket \<Rightarrow> 64 word" where
  "get_neighborhood_infos b = drop_bit NB_RESERVED_BITS_IN_NEIGHBORHOOD (m_neighborhood_infos b)"

definition set_overflow :: "bool \<Rightarrow> ('k, 'v) hopscotch_bucket \<Rightarrow> ('k, 'v) hopscotch_bucket" where
  "set_overflow has b =
     (if has then b\<lparr>m_neighborhood_infos := m_neighborhood_infos b OR 2\<rparr>
      else b\<lparr>m_neighborhood_infos := m_neighborhood_infos b AND NOT 2\<rparr>)"

definition has_overflow :: "('k, 'v) hopscotch_bucket \<Rightarrow> bool" where
  "has_overflow b \<longleftrightarrow> m_neighborhood_infos b AND 2 \<noteq> 0"

definition is_empty :: "('k, 'v) hopscotch_bucket \<Rightarrow> bool" where
  "is_empty b \<longleftrightarrow> m_neighborhood_infos b AND 1 = 0"

definition set_is_empty :: "bool \<Rightarrow> ('k, 'v) hopscotch_bucket \<Rightarrow> ('k, 'v) hopscotch_bucket" where
  "set_is_empty e b =
     (if e then b\<lparr>m_neighborhood_infos := m_neighborhood_infos b AND NOT 1\<rparr>
      else b\<lparr>m_neighborhood_infos := m_neighborhood_infos b OR 1\<rparr>)"

definition set_key_value :: "'k \<times> 'v \<Rightarrow> ('k, 'v) hopscotch_bucket \<Rightarrow> ('k, 'v) hopscotch_bucket" where
  "set_key_value kv b =
     (if \<not> is_empty b then b\<lparr>m_key_value := Some kv\<rparr>
      else set_is_empty False (b\<lparr>m_key_value := Some kv\<rparr>))"

definition remove_key_value :: "('k, 'v) hopscotch_bucket \<Rightarrow> ('k, 'v) hopscotch_bucket" where
  "remove_key_value b =
     (if \<not> is_empty b then set_is_empty True (b\<lparr>m_key_value := None\<rparr>) else b)"

definition toggle_neighbor_presence :: "nat \<Rightarrow> ('k, 'v) hopscotch_bucket \<Rightarrow> ('k, 'v) hopscotch_bucket" where
  "toggle_neighbor_presence ineighbor b =
     b\<lparr>m_neighborhood_infos :=
          m_neighborhood_infos b XOR push_bit (ineighbor + NB_RESERVED_BITS_IN_NEIGHBORHOOD) 1\<rparr>"

definition check_neighbor_presence :: "('k, 'v) hopscotch_bucket \<Rightarrow> nat \<Rightarrow> bool" where
  "check_neighbor_presence b ineighbor \<longleftrightarrow>
     drop_bit (ineighbor + NB_RESERVED_BITS_IN_NEIGHBORHOOD) (m_neighborhood_infos b) AND 1 = 1"

text \<open>\<open>get_key_value\<close> reads the storage; the source asserts that the bucket is not empty.\<close>

definition get_key_value :: "('k, 'v) hopscotch_bucket \<Rightarrow> 'k \<times> 'v" where
  "get_key_value b = the (m_key_value b)"

text \<open>
  \<open>this->swap_key_value_with_empty_bucket(empty_bucket)\<close>: the result is the pair
  (this bucket, the bucket that was empty).
\<close>

definition swap_key_value_with_empty_bucket ::
    "('k, 'v) hopscotch_bucket \<Rightarrow> ('k, 'v) hopscotch_bucket \<Rightarrow>
     ('k, 'v) hopscotch_bucket \<times> ('k, 'v) hopscotch_bucket" where
  "swap_key_value_with_empty_bucket this empty_bucket' =
     (if \<not> is_empty this
      then (set_is_empty True (this\<lparr>m_key_value := None\<rparr>),
            set_is_empty False (empty_bucket'\<lparr>m_key_value := Some (get_key_value this)\<rparr>))
      else (this, empty_bucket'))"

definition bucket_clear :: "('k, 'v) hopscotch_bucket \<Rightarrow> ('k, 'v) hopscotch_bucket" where
  "bucket_clear b = b\<lparr>m_neighborhood_infos := 0, m_key_value := None\<rparr>"

subsection \<open>Sizes and bucket selection\<close>

text \<open>\<open>m_buckets.size() - NeighborhoodSize + 1\<close> in \<open>std::size_t\<close>.\<close>

definition bucket_count :: "'k config \<Rightarrow> ('k, 'v) hopscotch_map \<Rightarrow> nat" where
  "bucket_count cfg s = (length (m_buckets s) + 2 ^ 64 - NeighborhoodSize cfg + 1) mod 2 ^ 64"

text \<open>
  \<open>bucket_for_hash(hash, nb_buckets)\<close> and \<open>bucket_for_hash(hash)\<close>: the mask
  \<open>nb_buckets - 1\<close> is computed in \<open>std::size_t\<close>, and \<open>hash % 0\<close> has no result.
\<close>

definition bucket_for_hash_nb :: "'k config \<Rightarrow> nat \<Rightarrow> nat \<Rightarrow> error + nat" where
  "bucket_for_hash_nb cfg hash nb_buckets =
     (if USE_POWER_OF_TWO_MOD cfg then Inr (hash AND ((nb_buckets + 2 ^ 64 - 1) mod 2 ^ 64))
      else if nb_buckets = 0 then Inl division_by_zero
      else Inr (hash mod nb_buckets))"

definition bucket_for_hash :: "'k config \<Rightarrow> ('k, 'v) hopscotch_map \<Rightarrow> nat \<Rightarrow> error + nat" where
  "bucket_for_hash cfg s hash = bucket_for_hash_nb cfg hash (bucket_count cfg s)"

text \<open>
  The callers of \<open>bucket_for_hash(m_hash(key))\<close> that go on to read
  \<open>m_buckets[ibucket_for_hash]\<close> (\<open>find\<close>, the public \<open>insert_internal\<close>,
  \<open>try_emplace_internal\<close>, \<open>erase\<close>): an index at or past the end of the array has no
  result.
\<close>

definition home_bucket :: "'k config \<Rightarrow> ('k, 'v) hopscotch_map \<Rightarrow> 'k \<Rightarrow> error + nat" where
  "home_bucket cfg s key =
     (case bucket_for_hash cfg s (m_hash cfg key) of
        Inl e \<Rightarrow> Inl e
      | Inr ibucket_for_hash \<Rightarrow>
          if ibucket_for_hash < length (m_buckets s) then Inr ibucket_for_hash
          else Inl out_of_bounds)"

definition get_expand_size :: "'k config \<Rightarrow> ('k, 'v) hopscotch_map \<Rightarrow> nat" where
  "get_expand_size cfg s = double_ceil_growth_to_size cfg (bucket_count cfg s)"

text \<open>
  \<open>round_up_to_power_of_two\<close>: \<open>power <<= 1\<close> wraps to 0 for a value above \<open>2 ^ 63\<close>, and
  the loop then runs forever: the result \<open>None\<close>.
\<close>

partial_function (option) round_up_loop :: "nat \<Rightarrow> nat \<Rightarrow> nat option" where
  "round_up_loop pw v =
     (if pw < v then round_up_loop ((2 * pw) mod 2 ^ 64) v else Some pw)"

declare round_up_loop.simps [code]

definition round_up_to_power_of_two :: "nat \<Rightarrow> nat option" where
  "round_up_to_power_of_two v = round_up_loop 1 v"

text \<open>\<open>max_load_factor(float ml)\<close>.\<close>

definition set_max_load_factor ::
    "'k config \<Rightarrow> float32 \<Rightarrow> ('k, 'v) hopscotch_map \<Rightarrow> ('k, 'v) hopscotch_map" where
  "set_max_load_factor cfg ml s =
     s\<lparr>m_max_load_factor := ml,
       m_load_threshold := float_product_to_size cfg (bucket_count cfg s) ml\<rparr>"

text \<open>
  The private constructor every other constructor delegates to. \<open>resize\<close> throws
  \<open>std::length_error\<close> for a size above \<open>max_size()\<close>; the sum \<open>bucket_count +
  NeighborhoodSize - 1\<close> is computed in \<open>std::size_t\<close>.
\<close>

definition hopscotch_map_init ::
    "'k config \<Rightarrow> nat \<Rightarrow> float32 \<Rightarrow> error + ('k, 'v) hopscotch_map" where
  "hopscotch_map_init cfg bucket_cnt ml =
     (case (if USE_POWER_OF_TWO_MOD cfg then round_up_to_power_of_two bucket_cnt
            else Some bucket_cnt) of
        None \<Rightarrow> Inl no_return
      | Some nb_buckets \<Rightarrow>
          (let new_size = (nb_buckets + NeighborhoodSize cfg - 1) mod 2 ^ 64 in
           if max_size cfg < new_size then Inl length_error
           else Inr (set_max_load_factor cfg ml
                  \<lparr>m_buckets = replicate new_size empty_bucket,
                   m_overflow_elements = [],
                   m_nb_elements = 0,
                   m_max_load_factor = ml,
                   m_load_threshold = 0\<rparr>)))"

definition hopscotch_map_new :: "'k config \<Rightarrow> nat \<Rightarrow> error + ('k, 'v) hopscotch_map" where
  "hopscotch_map_new cfg bucket_cnt = hopscotch_map_init cfg bucket_cnt DEFAULT_MAX_LOAD_FACTOR"

subsection \<open>Iterators\<close>

definition hopscotch_end :: "('k, 'v) hopscotch_map \<Rightarrow> hopscotch_iterator" where
  "hopscotch_end s =
     \<lparr>m_buckets_iterator = length (m_buckets s),
      m_buckets_end_iterator = length (m_buckets s),
      m_overflow_iterator = length (m_overflow_elements s)\<rparr>"

definition bucket_iterator :: "('k, 'v) hopscotch_map \<Rightarrow> nat \<Rightarrow> hopscotch_iterator" where
  "bucket_iterator s j =
     \<lparr>m_buckets_iterator = j,
      m_buckets_end_iterator = length (m_buckets s),
      m_overflow_iterator = 0\<rparr>"

definition overflow_iterator :: "('k, 'v) hopscotch_map \<Rightarrow> nat \<Rightarrow> hopscotch_iterator" where
  "overflow_iterator s j =
     \<lparr>m_buckets_iterator = length (m_buckets s),
      m_buckets_end_iterator = length (m_buckets s),
      m_overflow_iterator = j\<rparr>"

text \<open>\<open>operator*\<close> of the iterator.\<close>

definition deref :: "('k, 'v) hopscotch_map \<Rightarrow> hopscotch_iterator \<Rightarrow> 'k \<times> 'v" where
  "deref s it =
     (if m_buckets_iterator it \<noteq> m_buckets_end_iterator it
      then get_key_value (m_buckets s ! m_buckets_iterator it)
      else m_overflow_elements s ! m_overflow_iterator it)"

subsection \<open>Lookup\<close>

text \<open>\<open>std::find_if\<close> on a list: the index of the first element that satisfies the
  predicate, the length when there is none.\<close>

fun find_if :: "('a \<Rightarrow> bool) \<Rightarrow> 'a list \<Rightarrow> nat" where
  "find_if P [] = 0"
| "find_if P (x # xs) = (if P x then 0 else Suc (find_if P xs))"

text \<open>The loop of \<open>find_in_buckets\<close>; the result \<open>length bs\<close> is \<open>m_buckets.end()\<close>.\<close>

function find_in_buckets_loop ::
    "'k config \<Rightarrow> ('k, 'v) hopscotch_bucket list \<Rightarrow> 'k \<Rightarrow> 64 word \<Rightarrow> nat \<Rightarrow> nat" where
  "find_in_buckets_loop cfg bs key neighborhood_infos it_bucket =
     (if neighborhood_infos \<noteq> 0 then
        (if neighborhood_infos AND 1 = 1 \<and>
            m_key_equal cfg (fst (get_key_value (bs ! it_bucket))) key
         then it_bucket
         else find_in_buckets_loop cfg bs key (drop_bit 1 neighborhood_infos) (it_bucket + 1))
      else length bs)"
  by pat_completeness auto
termination
  apply (relation "measure (\<lambda>(cfg, bs, key, w, it). unat w)")
   apply simp
  apply (simp only: in_measure prod.case unat_drop_bit_eq)
  apply (simp add: drop_bit_Suc unat_gt_0)
  done

declare find_in_buckets_loop.simps [simp del]

definition find_in_buckets ::
    "'k config \<Rightarrow> ('k, 'v) hopscotch_bucket list \<Rightarrow> 'k \<Rightarrow> nat \<Rightarrow> nat" where
  "find_in_buckets cfg bs key it_bucket =
     find_in_buckets_loop cfg bs key (get_neighborhood_infos (bs ! it_bucket)) it_bucket"

definition find_internal ::
    "'k config \<Rightarrow> ('k, 'v) hopscotch_map \<Rightarrow> 'k \<Rightarrow> nat \<Rightarrow> hopscotch_iterator" where
  "find_internal cfg s key it_bucket =
     (let it = find_in_buckets cfg (m_buckets s) key it_bucket in
      if it \<noteq> length (m_buckets s) then bucket_iterator s it
      else if \<not> has_overflow (m_buckets s ! it_bucket) then hopscotch_end s
      else overflow_iterator s
             (find_if (\<lambda>v. m_key_equal cfg key (fst v)) (m_overflow_elements s)))"


text \<open>\<open>find\<close>, \<open>count\<close> and \<open>at\<close>.\<close>

definition hopscotch_find ::
    "'k config \<Rightarrow> ('k, 'v) hopscotch_map \<Rightarrow> 'k \<Rightarrow> error + hopscotch_iterator" where
  "hopscotch_find cfg s key =
     (case home_bucket cfg s key of
        Inl e \<Rightarrow> Inl e
      | Inr ibucket_for_hash \<Rightarrow> Inr (find_internal cfg s key ibucket_for_hash))"

definition hopscotch_count :: "'k config \<Rightarrow> ('k, 'v) hopscotch_map \<Rightarrow> 'k \<Rightarrow> error + nat" where
  "hopscotch_count cfg s key =
     (case hopscotch_find cfg s key of
        Inl e \<Rightarrow> Inl e
      | Inr it_find \<Rightarrow> Inr (if it_find = hopscotch_end s then 0 else 1))"

definition hopscotch_at :: "'k config \<Rightarrow> ('k, 'v) hopscotch_map \<Rightarrow> 'k \<Rightarrow> error + 'v" where
  "hopscotch_at cfg s key =
     (case hopscotch_find cfg s key of
        Inl e \<Rightarrow> Inl e
      | Inr it_find \<Rightarrow>
          if it_find = hopscotch_end s then Inl out_of_range
          else Inr (snd (deref s it_find)))"

subsection \<open>Insertion\<close>

text \<open>The loop of \<open>find_empty_bucket\<close>.\<close>

function find_empty_bucket_loop ::
    "('k, 'v) hopscotch_bucket list \<Rightarrow> nat \<Rightarrow> nat \<Rightarrow> nat" where
  "find_empty_bucket_loop bs limit ibucket_start =
     (if ibucket_start < limit then
        (if is_empty (bs ! ibucket_start) then ibucket_start
         else find_empty_bucket_loop bs limit (ibucket_start + 1))
      else length bs)"
  by pat_completeness auto
termination
  by (relation "measure (\<lambda>(bs, limit, i). limit - i)") auto

declare find_empty_bucket_loop.simps [simp del]

definition find_empty_bucket :: "('k, 'v) hopscotch_bucket list \<Rightarrow> nat \<Rightarrow> nat" where
  "find_empty_bucket bs ibucket_start =
     find_empty_bucket_loop bs
       (min (ibucket_start + MAX_LINEAR_PROBE_SEARCH_EMPTY_BUCKET) (length bs)) ibucket_start"

definition insert_in_bucket ::
    "'k \<times> 'v \<Rightarrow> nat \<Rightarrow> nat \<Rightarrow> ('k, 'v) hopscotch_map \<Rightarrow> ('k, 'v) hopscotch_map" where
  "insert_in_bucket key_value ibucket_empty ibucket_for_hash s =
     (let bs1 = (m_buckets s)[ibucket_empty := set_key_value key_value (m_buckets s ! ibucket_empty)];
          bs2 = bs1[ibucket_for_hash :=
                      toggle_neighbor_presence (ibucket_empty - ibucket_for_hash) (bs1 ! ibucket_for_hash)]
      in s\<lparr>m_buckets := bs2, m_nb_elements := m_nb_elements s + 1\<rparr>)"

text \<open>
  \<open>swap_empty_bucket_closer\<close>. The inner \<open>while\<close> walks the neighborhood bitmap of
  \<open>to_check\<close>; at the first set bit below the empty bucket it moves that entry into the
  empty bucket, toggles the two bits and returns: \<open>move_to_empty_bucket\<close> is the body of
  that \<open>if\<close>. The result \<open>Some (buckets, to_swap)\<close> is the source's \<open>true\<close> with the in-out
  parameter updated, \<open>None\<close> is \<open>false\<close>.
\<close>

definition move_to_empty_bucket ::
    "('k, 'v) hopscotch_bucket list \<Rightarrow> nat \<Rightarrow> nat \<Rightarrow> nat \<Rightarrow> ('k, 'v) hopscotch_bucket list" where
  "move_to_empty_bucket bs ibucket_empty to_check to_swap =
     (let (src, dst) = swap_key_value_with_empty_bucket (bs ! to_swap) (bs ! ibucket_empty);
          bs1 = (bs[to_swap := src])[ibucket_empty := dst];
          bs2 = bs1[to_check := toggle_neighbor_presence (ibucket_empty - to_check) (bs1 ! to_check)]
      in bs2[to_check := toggle_neighbor_presence (to_swap - to_check) (bs2 ! to_check)])"

function swap_closer_scan ::
    "('k, 'v) hopscotch_bucket list \<Rightarrow> nat \<Rightarrow> nat \<Rightarrow> 64 word \<Rightarrow> nat \<Rightarrow>
     (('k, 'v) hopscotch_bucket list \<times> nat) option" where
  "swap_closer_scan bs ibucket_empty to_check neighborhood_infos to_swap =
     (if neighborhood_infos \<noteq> 0 \<and> to_swap < ibucket_empty then
        (if neighborhood_infos AND 1 = 1 then
           Some (move_to_empty_bucket bs ibucket_empty to_check to_swap, to_swap)
         else swap_closer_scan bs ibucket_empty to_check (drop_bit 1 neighborhood_infos) (to_swap + 1))
      else None)"
  by pat_completeness auto
termination
  by (relation "measure (\<lambda>(bs, e, to_check, w, to_swap). e - to_swap)") auto

declare swap_closer_scan.simps [simp del]

function swap_closer_candidates ::
    "('k, 'v) hopscotch_bucket list \<Rightarrow> nat \<Rightarrow> nat \<Rightarrow>
     (('k, 'v) hopscotch_bucket list \<times> nat) option" where
  "swap_closer_candidates bs ibucket_empty to_check =
     (if to_check < ibucket_empty then
        (case swap_closer_scan bs ibucket_empty to_check
                (get_neighborhood_infos (bs ! to_check)) to_check of
           Some r \<Rightarrow> Some r
         | None \<Rightarrow> swap_closer_candidates bs ibucket_empty (to_check + 1))
      else None)"
  by pat_completeness auto
termination
  by (relation "measure (\<lambda>(bs, e, to_check). e - to_check)") auto

declare swap_closer_candidates.simps [simp del]

text \<open>
  \<open>neighborhood_start = ibucket_empty - NeighborhoodSize + 1\<close>. The source asserts
  \<open>ibucket_empty >= NeighborhoodSize\<close>; were the difference to wrap, the start would lie
  above \<open>ibucket_empty\<close> and the \<open>for\<close> loop would not run.
\<close>

definition swap_empty_bucket_closer ::
    "'k config \<Rightarrow> ('k, 'v) hopscotch_bucket list \<Rightarrow> nat \<Rightarrow>
     (('k, 'v) hopscotch_bucket list \<times> nat) option" where
  "swap_empty_bucket_closer cfg bs ibucket_empty =
     (if ibucket_empty + 1 < NeighborhoodSize cfg then None
      else swap_closer_candidates bs ibucket_empty (ibucket_empty + 1 - NeighborhoodSize cfg))"

text \<open>
  \<open>will_neighborhood_change_on_rehash\<close>: the loop over the buckets of the neighborhood.
\<close>

function will_neighborhood_change_loop ::
    "'k config \<Rightarrow> ('k, 'v) hopscotch_map \<Rightarrow> nat \<Rightarrow> nat \<Rightarrow> error + bool" where
  "will_neighborhood_change_loop cfg s ibucket_neighborhood_check ibucket =
     (if ibucket < length (m_buckets s) \<and>
         ibucket - ibucket_neighborhood_check < NeighborhoodSize cfg then
        (let hash = m_hash cfg (fst (get_key_value (m_buckets s ! ibucket))) in
         case bucket_for_hash cfg s hash of
           Inl e \<Rightarrow> Inl e
         | Inr ibucket_now \<Rightarrow>
             (case bucket_for_hash_nb cfg hash (get_expand_size cfg s) of
                Inl e \<Rightarrow> Inl e
              | Inr ibucket_then \<Rightarrow>
                  if ibucket_now \<noteq> ibucket_then then Inr True
                  else will_neighborhood_change_loop cfg s ibucket_neighborhood_check
                         (ibucket + 1)))
      else Inr False)"
  by pat_completeness auto
termination
  by (relation "measure (\<lambda>(cfg, s, i, ibucket). length (m_buckets s) - ibucket)") auto

declare will_neighborhood_change_loop.simps [simp del]

definition will_neighborhood_change_on_rehash ::
    "'k config \<Rightarrow> ('k, 'v) hopscotch_map \<Rightarrow> nat \<Rightarrow> error + bool" where
  "will_neighborhood_change_on_rehash cfg s ibucket_neighborhood_check =
     will_neighborhood_change_loop cfg s ibucket_neighborhood_check ibucket_neighborhood_check"

text \<open>
  The \<open>do ... while(swap_empty_bucket_closer(ibucket_empty))\<close> loop of
  \<open>insert_internal\<close>. It stops with \<open>True\<close> when the empty bucket is within
  \<open>NeighborhoodSize\<close> of the home bucket (the source then inserts and returns), and with
  \<open>False\<close> when no swap was possible. \<open>ibucket_empty - ibucket_for_hash\<close> is unsigned in
  the source, so an empty bucket below the home bucket is never in range.
\<close>

function closer_loop ::
    "'k config \<Rightarrow> ('k, 'v) hopscotch_bucket list \<Rightarrow> nat \<Rightarrow> nat \<Rightarrow>
     ('k, 'v) hopscotch_bucket list \<times> nat \<times> bool" where
  "closer_loop cfg bs ibucket_for_hash ibucket_empty =
     (if ibucket_for_hash \<le> ibucket_empty \<and>
         ibucket_empty - ibucket_for_hash < NeighborhoodSize cfg
      then (bs, ibucket_empty, True)
      else (case swap_empty_bucket_closer cfg bs ibucket_empty of
              Some (bs', ibucket_empty') \<Rightarrow> closer_loop cfg bs' ibucket_for_hash ibucket_empty'
            | None \<Rightarrow> (bs, ibucket_empty, False)))"
  by pat_completeness auto
termination
proof (relation "measure (\<lambda>(cfg, bs, i, e). e)")
  show "wf (measure (\<lambda>(cfg :: 'a config, bs :: ('a, 'b) hopscotch_bucket list, i :: nat, e :: nat). e))"
    by simp
next
  fix cfg :: "'a config" and bs :: "('a, 'b) hopscotch_bucket list"
    and i e :: nat and r bs' e'
  assume swap: "swap_empty_bucket_closer cfg bs e = Some r" and r: "(bs', e') = r"
  have scan: "swap_closer_scan bs0 e0 c w t = Some q \<Longrightarrow> snd q < e0"
    for bs0 :: "('a, 'b) hopscotch_bucket list" and e0 c w t q
  proof (induction bs0 e0 c w t rule: swap_closer_scan.induct)
    case (1 bs e c w t)
    from "1.prems" "1.IH" show ?case
      by (subst (asm) swap_closer_scan.simps)
         (auto split: if_splits prod.splits simp: Let_def)
  qed
  have cand: "swap_closer_candidates bs0 e0 c = Some q \<Longrightarrow> snd q < e0"
    for bs0 :: "('a, 'b) hopscotch_bucket list" and e0 c q
  proof (induction bs0 e0 c rule: swap_closer_candidates.induct)
    case (1 bs e c)
    from "1.prems" "1.IH" show ?case
      by (subst (asm) swap_closer_candidates.simps)
         (auto split: if_splits option.splits dest: scan)
  qed
  from swap have "snd r < e"
    using cand by (auto simp: swap_empty_bucket_closer_def split: if_splits)
  with r show "((cfg, bs', i, e'), (cfg, bs, i, e)) \<in> measure (\<lambda>(cfg, bs, i, e). e)"
    by auto
qed

declare closer_loop.simps [simp del]

text \<open>
  The body of \<open>insert_internal(key_value, ibucket_for_hash)\<close> between the two calls of
  \<open>rehash_internal\<close>: either the pair is stored (in a bucket or in the overflow list) and
  the function returns, or control reaches the \<open>rehash_internal\<close> at the end.
\<close>

datatype ('k, 'v) attempt =
  Stored "('k, 'v) hopscotch_map" hopscotch_iterator
  | Rehash_needed "('k, 'v) hopscotch_map"

definition insert_attempt ::
    "'k config \<Rightarrow> 'k \<times> 'v \<Rightarrow> nat \<Rightarrow> ('k, 'v) hopscotch_map \<Rightarrow> error + ('k, 'v) attempt" where
  "insert_attempt cfg key_value ibucket_for_hash s =
     (let ibucket_empty = find_empty_bucket (m_buckets s) ibucket_for_hash in
      if ibucket_empty < length (m_buckets s) then
        (case closer_loop cfg (m_buckets s) ibucket_for_hash ibucket_empty of
           (bs, ibucket_empty', True) \<Rightarrow>
             (let s' = insert_in_bucket key_value ibucket_empty' ibucket_for_hash (s\<lparr>m_buckets := bs\<rparr>)
              in Inr (Stored s' (bucket_iterator s' ibucket_empty')))
         | (bs, ibucket_empty', False) \<Rightarrow>
             (let s1 = s\<lparr>m_buckets := bs\<rparr> in
              case will_neighborhood_change_on_rehash cfg s1 ibucket_for_hash of
                Inl e \<Rightarrow> Inl e
              | Inr False \<Rightarrow>
                  (let s' = s1\<lparr>m_overflow_elements := m_overflow_elements s1 @ [key_value],
                               m_buckets := bs[ibucket_for_hash := set_overflow True (bs ! ibucket_for_hash)],
                               m_nb_elements := m_nb_elements s1 + 1\<rparr>
                   in Inr (Stored s' (overflow_iterator s' (length (m_overflow_elements s') - 1))))
              | Inr True \<Rightarrow> Inr (Rehash_needed s1)))
      else Inr (Rehash_needed s))"

text \<open>
  \<open>rehash_internal\<close>, with the \<open>insert_internal\<close> it calls on the new map as a parameter.
  The elements of a map in iteration order are the pairs of the non-empty buckets, then
  the overflow list. In the overload for a nothrow move constructible \<open>value_type\<close> the
  last loop writes \<open>tmp_map.m_buckets[ibucket_for_hash]\<close>.
\<close>

definition bucket_elements :: "('k, 'v) hopscotch_bucket list \<Rightarrow> ('k \<times> 'v) list" where
  "bucket_elements bs = map get_key_value (filter (\<lambda>b. \<not> is_empty b) bs)"

fun rehash_insert_loop ::
    "('k \<times> 'v \<Rightarrow> nat \<Rightarrow> ('k, 'v) hopscotch_map \<Rightarrow>
        error + (('k, 'v) hopscotch_map \<times> hopscotch_iterator \<times> bool)) \<Rightarrow>
     'k config \<Rightarrow> ('k \<times> 'v) list \<Rightarrow> ('k, 'v) hopscotch_map \<Rightarrow> error + ('k, 'v) hopscotch_map" where
  "rehash_insert_loop ins cfg [] tmp_map = Inr tmp_map"
| "rehash_insert_loop ins cfg (key_value # rest) tmp_map =
     (case bucket_for_hash cfg tmp_map (m_hash cfg (fst key_value)) of
        Inl e \<Rightarrow> Inl e
      | Inr ibucket_for_hash \<Rightarrow>
          (case ins key_value ibucket_for_hash tmp_map of
             Inl e \<Rightarrow> Inl e
           | Inr (tmp_map', _) \<Rightarrow> rehash_insert_loop ins cfg rest tmp_map'))"

fun rehash_overflow_flags ::
    "'k config \<Rightarrow> ('k \<times> 'v) list \<Rightarrow> ('k, 'v) hopscotch_map \<Rightarrow> error + ('k, 'v) hopscotch_map" where
  "rehash_overflow_flags cfg [] tmp_map = Inr tmp_map"
| "rehash_overflow_flags cfg (key_value # rest) tmp_map =
     (case home_bucket cfg tmp_map (fst key_value) of
        Inl e \<Rightarrow> Inl e
      | Inr ibucket_for_hash \<Rightarrow>
          rehash_overflow_flags cfg rest
            (tmp_map\<lparr>m_buckets := (m_buckets tmp_map)[ibucket_for_hash :=
                         set_overflow True (m_buckets tmp_map ! ibucket_for_hash)]\<rparr>))"

definition rehash_internal_with ::
    "('k \<times> 'v \<Rightarrow> nat \<Rightarrow> ('k, 'v) hopscotch_map \<Rightarrow>
        error + (('k, 'v) hopscotch_map \<times> hopscotch_iterator \<times> bool)) \<Rightarrow>
     'k config \<Rightarrow> nat \<Rightarrow> ('k, 'v) hopscotch_map \<Rightarrow> error + ('k, 'v) hopscotch_map" where
  "rehash_internal_with ins cfg bucket_cnt s =
     (case hopscotch_map_init cfg bucket_cnt (m_max_load_factor s) of
        Inl e \<Rightarrow> Inl e
      | Inr tmp_map \<Rightarrow>
          if nothrow_move_constructible cfg then
            (case rehash_insert_loop ins cfg (bucket_elements (m_buckets s)) tmp_map of
               Inl e \<Rightarrow> Inl e
             | Inr tmp_map1 \<Rightarrow>
                 if m_overflow_elements s \<noteq> [] then
                   rehash_overflow_flags cfg (m_overflow_elements s)
                     (tmp_map1\<lparr>m_overflow_elements := m_overflow_elements s,
                               m_nb_elements := m_nb_elements tmp_map1 + length (m_overflow_elements s)\<rparr>)
                 else Inr tmp_map1)
          else rehash_insert_loop ins cfg (bucket_elements (m_buckets s) @ m_overflow_elements s)
                 tmp_map)"

text \<open>\<open>insert_internal(key_value, ibucket_for_hash)\<close>.\<close>

primrec insert_internal ::
    "nat \<Rightarrow> 'k config \<Rightarrow> 'k \<times> 'v \<Rightarrow> nat \<Rightarrow> ('k, 'v) hopscotch_map \<Rightarrow>
     error + (('k, 'v) hopscotch_map \<times> hopscotch_iterator \<times> bool)" where
  "insert_internal 0 cfg key_value ibucket_for_hash s = Inl no_return"
| "insert_internal (Suc fuel) cfg key_value ibucket_for_hash s =
     (case (if m_nb_elements s + 1 > m_load_threshold s then
              (case rehash_internal_with (insert_internal fuel cfg) cfg (get_expand_size cfg s) s of
                 Inl e \<Rightarrow> Inl e
               | Inr s' \<Rightarrow>
                   (case bucket_for_hash cfg s' (m_hash cfg (fst key_value)) of
                      Inl e \<Rightarrow> Inl e
                    | Inr ibucket_for_hash' \<Rightarrow> Inr (s', ibucket_for_hash')))
            else Inr (s, ibucket_for_hash)) of
        Inl e \<Rightarrow> Inl e
      | Inr (s1, ibucket_for_hash1) \<Rightarrow>
          (case insert_attempt cfg key_value ibucket_for_hash1 s1 of
             Inl e \<Rightarrow> Inl e
           | Inr (Stored s' it) \<Rightarrow> Inr (s', it, True)
           | Inr (Rehash_needed s2) \<Rightarrow>
               (case rehash_internal_with (insert_internal fuel cfg) cfg (get_expand_size cfg s2) s2 of
                  Inl e \<Rightarrow> Inl e
                | Inr s3 \<Rightarrow>
                    (case bucket_for_hash cfg s3 (m_hash cfg (fst key_value)) of
                       Inl e \<Rightarrow> Inl e
                     | Inr ibucket_for_hash3 \<Rightarrow>
                         insert_internal fuel cfg key_value ibucket_for_hash3 s3))))"

definition rehash_internal ::
    "nat \<Rightarrow> 'k config \<Rightarrow> nat \<Rightarrow> ('k, 'v) hopscotch_map \<Rightarrow> error + ('k, 'v) hopscotch_map" where
  "rehash_internal fuel cfg bucket_cnt s =
     rehash_internal_with (insert_internal fuel cfg) cfg bucket_cnt s"

text \<open>\<open>insert_internal(key_value)\<close>, which \<open>insert\<close> calls.\<close>

definition hopscotch_insert ::
    "nat \<Rightarrow> 'k config \<Rightarrow> 'k \<times> 'v \<Rightarrow> ('k, 'v) hopscotch_map \<Rightarrow>
     error + (('k, 'v) hopscotch_map \<times> hopscotch_iterator \<times> bool)" where
  "hopscotch_insert fuel cfg key_value s =
     (case home_bucket cfg s (fst key_value) of
        Inl e \<Rightarrow> Inl e
      | Inr ibucket_for_hash \<Rightarrow>
          (let it_find = find_internal cfg s (fst key_value) ibucket_for_hash
           in if it_find \<noteq> hopscotch_end s then Inr (s, it_find, False)
              else insert_internal fuel cfg key_value ibucket_for_hash s))"

text \<open>\<open>try_emplace_internal\<close>; the mapped value built from the arguments is \<open>v\<close>.\<close>

definition try_emplace ::
    "nat \<Rightarrow> 'k config \<Rightarrow> 'k \<Rightarrow> 'v \<Rightarrow> ('k, 'v) hopscotch_map \<Rightarrow>
     error + (('k, 'v) hopscotch_map \<times> hopscotch_iterator \<times> bool)" where
  "try_emplace fuel cfg key v s =
     (case home_bucket cfg s key of
        Inl e \<Rightarrow> Inl e
      | Inr ibucket_for_hash \<Rightarrow>
          (let it_find = find_internal cfg s key ibucket_for_hash
           in if it_find \<noteq> hopscotch_end s then Inr (s, it_find, False)
              else insert_internal fuel cfg (key, v) ibucket_for_hash s))"

text \<open>\<open>operator[]\<close>; \<open>dflt\<close> is the value-initialised \<open>T()\<close>. The result is the new state
  and the position of the mapped value the returned reference refers to.\<close>

definition operator_index ::
    "nat \<Rightarrow> 'k config \<Rightarrow> 'v \<Rightarrow> 'k \<Rightarrow> ('k, 'v) hopscotch_map \<Rightarrow>
     error + (('k, 'v) hopscotch_map \<times> hopscotch_iterator)" where
  "operator_index fuel cfg dflt key s =
     (case hopscotch_find cfg s key of
        Inl e \<Rightarrow> Inl e
      | Inr it_find \<Rightarrow>
          if it_find = hopscotch_end s then
            (case hopscotch_insert fuel cfg (key, dflt) s of
               Inl e \<Rightarrow> Inl e
             | Inr (s', it, _) \<Rightarrow> Inr (s', it))
          else Inr (s, it_find))"

subsection \<open>Erase, clear, rehash\<close>

text \<open>
  \<open>find_in_overflow_from_bucket\<close> from \<open>m_overflow_elements.begin()\<close>. Its callers have
  computed \<open>bucket_for_hash\<close> on the same bucket array before, so the call in the loop
  has a result.
\<close>

definition find_in_overflow_from_bucket ::
    "'k config \<Rightarrow> ('k, 'v) hopscotch_map \<Rightarrow> nat \<Rightarrow> nat" where
  "find_in_overflow_from_bucket cfg s original_bucket_for_hash =
     find_if (\<lambda>v. bucket_for_hash cfg s (m_hash cfg (fst v)) = Inr original_bucket_for_hash)
       (m_overflow_elements s)"

text \<open>\<open>m_overflow_elements.erase(pos)\<close> removes the node at \<open>pos\<close>; the iterator to the
  next node is the same index in the shorter list.\<close>

definition list_erase :: "'a list \<Rightarrow> nat \<Rightarrow> 'a list" where
  "list_erase xs pos = take pos xs @ drop (Suc pos) xs"

definition erase_from_overflow ::
    "'k config \<Rightarrow> nat \<Rightarrow> nat \<Rightarrow> ('k, 'v) hopscotch_map \<Rightarrow> error + ('k, 'v) hopscotch_map" where
  "erase_from_overflow cfg pos ibucket_for_hash s =
     (let s1 = s\<lparr>m_overflow_elements := list_erase (m_overflow_elements s) pos,
                 m_nb_elements := m_nb_elements s - 1\<rparr>
      in if find_in_overflow_from_bucket cfg s1 ibucket_for_hash = length (m_overflow_elements s1)
         then (if ibucket_for_hash < length (m_buckets s1)
               then Inr (s1\<lparr>m_buckets := (m_buckets s1)[ibucket_for_hash :=
                              set_overflow False (m_buckets s1 ! ibucket_for_hash)]\<rparr>)
               else Inl out_of_bounds)
         else Inr s1)"

definition erase_from_bucket ::
    "nat \<Rightarrow> nat \<Rightarrow> ('k, 'v) hopscotch_map \<Rightarrow> ('k, 'v) hopscotch_map" where
  "erase_from_bucket ibucket_for_key ibucket_for_hash s =
     (let bs1 = (m_buckets s)[ibucket_for_key := remove_key_value (m_buckets s ! ibucket_for_key)];
          bs2 = bs1[ibucket_for_hash :=
                      toggle_neighbor_presence (ibucket_for_key - ibucket_for_hash) (bs1 ! ibucket_for_hash)]
      in s\<lparr>m_buckets := bs2, m_nb_elements := m_nb_elements s - 1\<rparr>)"

text \<open>\<open>erase(const key_type&)\<close>. The \<open>for\<close> loop over the overflow list stops at the first
  node whose key is equal: the index \<open>find_if\<close> computes.\<close>

definition hopscotch_erase ::
    "'k config \<Rightarrow> 'k \<Rightarrow> ('k, 'v) hopscotch_map \<Rightarrow> error + (('k, 'v) hopscotch_map \<times> nat)" where
  "hopscotch_erase cfg key s =
     (case home_bucket cfg s key of
        Inl e \<Rightarrow> Inl e
      | Inr ibucket_for_hash \<Rightarrow>
          (let it_find = find_in_buckets cfg (m_buckets s) key ibucket_for_hash
           in if it_find \<noteq> length (m_buckets s)
              then Inr (erase_from_bucket it_find ibucket_for_hash s, 1)
              else if has_overflow (m_buckets s ! ibucket_for_hash) then
                (let it_overflow = find_if (\<lambda>v. m_key_equal cfg key (fst v)) (m_overflow_elements s)
                 in if it_overflow \<noteq> length (m_overflow_elements s)
                    then (case erase_from_overflow cfg it_overflow ibucket_for_hash s of
                            Inl e \<Rightarrow> Inl e
                          | Inr s' \<Rightarrow> Inr (s', 1))
                    else Inr (s, 0))
              else Inr (s, 0)))"

text \<open>\<open>operator++\<close> of the iterator and \<open>erase(const_iterator)\<close>; \<open>erase_from_bucket\<close>
  writes \<open>m_buckets[ibucket_for_hash]\<close>.\<close>

function skip_empty_buckets :: "('k, 'v) hopscotch_bucket list \<Rightarrow> nat \<Rightarrow> nat" where
  "skip_empty_buckets bs j =
     (if j < length bs \<and> is_empty (bs ! j) then skip_empty_buckets bs (j + 1) else j)"
  by pat_completeness auto
termination
  by (relation "measure (\<lambda>(bs, j). length bs - j)") auto

declare skip_empty_buckets.simps [simp del]

definition iterator_next :: "('k, 'v) hopscotch_map \<Rightarrow> hopscotch_iterator \<Rightarrow> hopscotch_iterator" where
  "iterator_next s it =
     (if m_buckets_iterator it = m_buckets_end_iterator it
      then it\<lparr>m_overflow_iterator := m_overflow_iterator it + 1\<rparr>
      else it\<lparr>m_buckets_iterator := skip_empty_buckets (m_buckets s) (m_buckets_iterator it + 1)\<rparr>)"

definition hopscotch_erase_pos ::
    "'k config \<Rightarrow> hopscotch_iterator \<Rightarrow> ('k, 'v) hopscotch_map \<Rightarrow>
     error + (('k, 'v) hopscotch_map \<times> hopscotch_iterator)" where
  "hopscotch_erase_pos cfg pos s =
     (case bucket_for_hash cfg s (m_hash cfg (fst (deref s pos))) of
        Inl e \<Rightarrow> Inl e
      | Inr ibucket_for_hash \<Rightarrow>
          if m_buckets_iterator pos \<noteq> m_buckets_end_iterator pos then
            (if ibucket_for_hash < length (m_buckets s) then
               (let s' = erase_from_bucket (m_buckets_iterator pos) ibucket_for_hash s
                in Inr (s', iterator_next s' (bucket_iterator s' (m_buckets_iterator pos))))
             else Inl out_of_bounds)
          else
            (case erase_from_overflow cfg (m_overflow_iterator pos) ibucket_for_hash s of
               Inl e \<Rightarrow> Inl e
             | Inr s' \<Rightarrow> Inr (s', overflow_iterator s' (m_overflow_iterator pos))))"

definition hopscotch_clear :: "('k, 'v) hopscotch_map \<Rightarrow> ('k, 'v) hopscotch_map" where
  "hopscotch_clear s =
     s\<lparr>m_buckets := map bucket_clear (m_buckets s),
       m_overflow_elements := [],
       m_nb_elements := 0\<rparr>"

text \<open>\<open>rehash\<close> and \<open>reserve\<close>.\<close>

definition hopscotch_rehash ::
    "nat \<Rightarrow> 'k config \<Rightarrow> nat \<Rightarrow> ('k, 'v) hopscotch_map \<Rightarrow> error + ('k, 'v) hopscotch_map" where
  "hopscotch_rehash fuel cfg bucket_cnt s =
     rehash_internal fuel cfg
       (max bucket_cnt
          (float_ceil_quotient_to_size cfg (m_nb_elements s) (m_max_load_factor s))) s"

definition hopscotch_reserve ::
    "nat \<Rightarrow> 'k config \<Rightarrow> nat \<Rightarrow> ('k, 'v) hopscotch_map \<Rightarrow> error + ('k, 'v) hopscotch_map" where
  "hopscotch_reserve fuel cfg bucket_cnt s =
     hopscotch_rehash fuel cfg
       (float_ceil_quotient_to_size cfg bucket_cnt (m_max_load_factor s)) s"

section \<open>Invariants and reachable states\<close>

text \<open>The requirements on \<open>KeyEqual\<close> and \<open>Hash\<close>: an equivalence relation, and equal keys
  have equal hashes.\<close>

definition valid_key_equal :: "'k config \<Rightarrow> bool" where
  "valid_key_equal cfg \<longleftrightarrow>
     (\<forall>a. m_key_equal cfg a a) \<and>
     (\<forall>a b. m_key_equal cfg a b \<longrightarrow> m_key_equal cfg b a) \<and>
     (\<forall>a b c. m_key_equal cfg a b \<longrightarrow> m_key_equal cfg b c \<longrightarrow> m_key_equal cfg a c) \<and>
     (\<forall>a b. m_key_equal cfg a b \<longrightarrow> m_hash cfg a = m_hash cfg b)"

text \<open>
  The number of buckets of a bucket array (\<open>bucket_count()\<close>), the home bucket of a key
  (the value of \<open>bucket_for_hash\<close> where it has one), and the key stored in a bucket.
\<close>

definition nb_buckets_of :: "'k config \<Rightarrow> ('k, 'v) hopscotch_bucket list \<Rightarrow> nat" where
  "nb_buckets_of cfg bs = (length bs + 2 ^ 64 - NeighborhoodSize cfg + 1) mod 2 ^ 64"

definition home_of :: "'k config \<Rightarrow> ('k, 'v) hopscotch_bucket list \<Rightarrow> 'k \<Rightarrow> nat" where
  "home_of cfg bs key =
     (if USE_POWER_OF_TWO_MOD cfg
      then m_hash cfg key AND ((nb_buckets_of cfg bs + 2 ^ 64 - 1) mod 2 ^ 64)
      else m_hash cfg key mod nb_buckets_of cfg bs)"

definition key_at :: "('k, 'v) hopscotch_bucket list \<Rightarrow> nat \<Rightarrow> 'k" where
  "key_at bs j = fst (get_key_value (bs ! j))"

definition storage_consistent :: "('k, 'v) hopscotch_bucket list \<Rightarrow> bool" where
  "storage_consistent bs \<longleftrightarrow>
     (\<forall>j < length bs. is_empty (bs ! j) \<longleftrightarrow> m_key_value (bs ! j) = None)"

definition neighborhood_consistent :: "'k config \<Rightarrow> ('k, 'v) hopscotch_bucket list \<Rightarrow> bool" where
  "neighborhood_consistent cfg bs \<longleftrightarrow>
     (\<forall>i < length bs. \<forall>b.
        check_neighbor_presence (bs ! i) b \<longleftrightarrow>
          (i + b < length bs \<and> \<not> is_empty (bs ! (i + b)) \<and> home_of cfg bs (key_at bs (i + b)) = i))"

definition no_wraparound :: "'k config \<Rightarrow> ('k, 'v) hopscotch_bucket list \<Rightarrow> bool" where
  "no_wraparound cfg bs \<longleftrightarrow>
     (\<forall>j < length bs. \<not> is_empty (bs ! j) \<longrightarrow>
        home_of cfg bs (key_at bs j) \<le> j \<and> j < home_of cfg bs (key_at bs j) + NeighborhoodSize cfg)"

definition buckets_inv :: "'k config \<Rightarrow> ('k, 'v) hopscotch_bucket list \<Rightarrow> bool" where
  "buckets_inv cfg bs \<longleftrightarrow>
     (USE_POWER_OF_TWO_MOD cfg \<longrightarrow> (\<exists>k. nb_buckets_of cfg bs = 2 ^ k)) \<and>
     storage_consistent bs \<and> neighborhood_consistent cfg bs \<and> no_wraparound cfg bs"

text \<open>Every overflow entry has the overflow flag of its home bucket set.\<close>

definition overflow_flagged :: "'k config \<Rightarrow> ('k, 'v) hopscotch_map \<Rightarrow> bool" where
  "overflow_flagged cfg s \<longleftrightarrow>
     (\<forall>kv \<in> set (m_overflow_elements s).
        home_of cfg (m_buckets s) (fst kv) < length (m_buckets s) \<and>
        has_overflow (m_buckets s ! home_of cfg (m_buckets s) (fst kv)))"

text \<open>The pairs a map stores, as a multiset.\<close>

definition content :: "('k, 'v) hopscotch_map \<Rightarrow> ('k \<times> 'v) multiset" where
  "content s = mset (bucket_elements (m_buckets s)) + mset (m_overflow_elements s)"

definition base_inv :: "'k config \<Rightarrow> ('k, 'v) hopscotch_map \<Rightarrow> bool" where
  "base_inv cfg s \<longleftrightarrow>
     buckets_inv cfg (m_buckets s) \<and> overflow_flagged cfg s \<and>
     size (content s) \<le> m_nb_elements s"

text \<open>An iterator that may be passed to \<open>erase(const_iterator)\<close>: it refers to an entry.\<close>

definition dereferenceable :: "('k, 'v) hopscotch_map \<Rightarrow> hopscotch_iterator \<Rightarrow> bool" where
  "dereferenceable s it \<longleftrightarrow>
     m_buckets_end_iterator it = length (m_buckets s) \<and>
     (if m_buckets_iterator it \<noteq> m_buckets_end_iterator it
      then m_buckets_iterator it < length (m_buckets s) \<and>
           \<not> is_empty (m_buckets s ! m_buckets_iterator it)
      else m_overflow_iterator it < length (m_overflow_elements s))"

text \<open>
  The states reachable from a newly constructed map by the public operations that
  return: \<open>insert\<close>, \<open>try_emplace\<close>, \<open>operator[]\<close>, \<open>erase\<close> by key and by iterator,
  \<open>rehash\<close>, \<open>reserve\<close>, \<open>max_load_factor\<close> and \<open>clear\<close>. A bucket count is a \<open>size_type\<close>.
\<close>

inductive reachable :: "'k config \<Rightarrow> ('k, 'v) hopscotch_map \<Rightarrow> bool" for cfg :: "'k config" where
  reachable_new:
    "bucket_cnt < 2 ^ 64 \<Longrightarrow> hopscotch_map_new cfg bucket_cnt = Inr s \<Longrightarrow> reachable cfg s"
| reachable_insert:
    "reachable cfg s \<Longrightarrow> hopscotch_insert fuel cfg key_value s = Inr (s', it, inserted) \<Longrightarrow>
     reachable cfg s'"
| reachable_try_emplace:
    "reachable cfg s \<Longrightarrow> try_emplace fuel cfg key v s = Inr (s', it, inserted) \<Longrightarrow>
     reachable cfg s'"
| reachable_operator_index:
    "reachable cfg s \<Longrightarrow> operator_index fuel cfg dflt key s = Inr (s', it) \<Longrightarrow>
     reachable cfg s'"
| reachable_erase:
    "reachable cfg s \<Longrightarrow> hopscotch_erase cfg key s = Inr (s', n) \<Longrightarrow> reachable cfg s'"
| reachable_erase_pos:
    "reachable cfg s \<Longrightarrow> dereferenceable s pos \<Longrightarrow> hopscotch_erase_pos cfg pos s = Inr (s', it) \<Longrightarrow>
     reachable cfg s'"
| reachable_rehash:
    "reachable cfg s \<Longrightarrow> bucket_cnt < 2 ^ 64 \<Longrightarrow>
     hopscotch_rehash fuel cfg bucket_cnt s = Inr s' \<Longrightarrow> reachable cfg s'"
| reachable_reserve:
    "reachable cfg s \<Longrightarrow> bucket_cnt < 2 ^ 64 \<Longrightarrow>
     hopscotch_reserve fuel cfg bucket_cnt s = Inr s' \<Longrightarrow> reachable cfg s'"
| reachable_max_load_factor:
    "reachable cfg s \<Longrightarrow> reachable cfg (set_max_load_factor cfg ml s)"
| reachable_clear:
    "reachable cfg s \<Longrightarrow> reachable cfg (hopscotch_clear s)"

subsection \<open>Concrete maps\<close>

text \<open>
  Maps with \<open>nat\<close> keys and values (\<open>int\<close> keys with the identity \<open>std::hash\<close>, or a
  constant hash), \<open>std::equal_to\<close>, a nothrow move constructible \<open>value_type\<close>, and
  \<open>2 ^ 59 - 1\<close> for the \<open>max_size()\<close> of the bucket vector (that of 16-byte elements on
  a 64-bit machine; the arrays of the maps below are far shorter). The three rounding
  functions are given for the default maximum load factor \<open>0.9f\<close> and the growth factor
  \<open>num / den\<close> by the exact quotients; on the bucket counts and sizes that occur in the
  maps below (at most 128) the \<open>float\<close> and \<open>double\<close> computations give the same numbers.
\<close>

definition example_config :: "nat \<Rightarrow> nat \<Rightarrow> nat \<Rightarrow> (nat \<Rightarrow> nat) \<Rightarrow> nat config" where
  "example_config N num den h =
     \<lparr>NeighborhoodSize = N, GrowthFactor_num = num, GrowthFactor_den = den,
      nothrow_move_constructible = True, m_hash = h, m_key_equal = (=),
      max_size = 2 ^ 59 - 1,
      float_product_to_size = (\<lambda>n ml. n * 9 div 10),
      float_ceil_quotient_to_size = (\<lambda>n ml. (n * 10 + 8) div 9),
      double_ceil_growth_to_size = (\<lambda>n. (n * num + den - 1) div den)\<rparr>"

text \<open>\<open>GrowthFactor = std::ratio<2, 1>\<close> (the default) with the identity hash and with the
  constant hash 0, and \<open>GrowthFactor = std::ratio<3, 2>\<close> with the identity hash.\<close>

definition identity_config :: "nat \<Rightarrow> nat config" where
  "identity_config N = example_config N 2 1 (\<lambda>k. k)"

definition constant_hash_config :: "nat \<Rightarrow> nat config" where
  "constant_hash_config N = example_config N 2 1 (\<lambda>k. 0)"

definition modulus_config :: "nat \<Rightarrow> nat config" where
  "modulus_config N = example_config N 3 2 (\<lambda>k. k)"

text \<open>The states after a call; the state is the one before when the call has no
  result.\<close>

definition new_map :: "'k config \<Rightarrow> nat \<Rightarrow> ('k, 'v) hopscotch_map" where
  "new_map cfg bucket_cnt =
     (case hopscotch_map_new cfg bucket_cnt of
        Inr s \<Rightarrow> s
      | Inl e \<Rightarrow> \<lparr>m_buckets = [], m_overflow_elements = [], m_nb_elements = 0,
                  m_max_load_factor = DEFAULT_MAX_LOAD_FACTOR, m_load_threshold = 0\<rparr>)"

definition after_insert ::
    "'k config \<Rightarrow> 'k \<times> 'v \<Rightarrow> ('k, 'v) hopscotch_map \<Rightarrow> ('k, 'v) hopscotch_map" where
  "after_insert cfg key_value s =
     (case hopscotch_insert 16 cfg key_value s of Inr (s', it) \<Rightarrow> s' | Inl e \<Rightarrow> s)"

definition after_rehash ::
    "'k config \<Rightarrow> nat \<Rightarrow> ('k, 'v) hopscotch_map \<Rightarrow> ('k, 'v) hopscotch_map" where
  "after_rehash cfg bucket_cnt s =
     (case hopscotch_rehash 16 cfg bucket_cnt s of Inr s' \<Rightarrow> s' | Inl e \<Rightarrow> s)"

text \<open>Neighborhood size 4, identity hash, 16 buckets: the keys 0, 1, 2, 3, and then
  the key 4 or the key 16.\<close>

definition keys_0_to_3 :: "(nat, nat) hopscotch_map" where
  "keys_0_to_3 =
     after_insert (identity_config 4) (3, 3)
       (after_insert (identity_config 4) (2, 2)
         (after_insert (identity_config 4) (1, 1)
           (after_insert (identity_config 4) (0, 0)
             (new_map (identity_config 4) 16))))"

definition keys_0_to_4 :: "(nat, nat) hopscotch_map" where
  "keys_0_to_4 = after_insert (identity_config 4) (4, 4) keys_0_to_3"

definition keys_0_to_3_and_16 :: "(nat, nat) hopscotch_map" where
  "keys_0_to_3_and_16 = after_insert (identity_config 4) (16, 16) keys_0_to_3"

text \<open>The same with \<open>std::ratio<3, 2>\<close>: 12 buckets and the keys 0, 1, 2, 3, 12.\<close>

definition modulus_keys_0_to_3_and_12 :: "(nat, nat) hopscotch_map" where
  "modulus_keys_0_to_3_and_12 =
     after_insert (modulus_config 4) (12, 12)
       (after_insert (modulus_config 4) (3, 3)
         (after_insert (modulus_config 4) (2, 2)
           (after_insert (modulus_config 4) (1, 1)
             (after_insert (modulus_config 4) (0, 0)
               (new_map (modulus_config 4) 12)))))"

text \<open>\<open>std::ratio<3, 2>\<close> and the default neighborhood size 62, constructed with
  \<open>bucket_count = 0\<close>.\<close>

definition no_buckets :: "(nat, nat) hopscotch_map" where
  "no_buckets = new_map (modulus_config 62) 0"

text \<open>Neighborhood size 1, identity hash, 16 buckets: the keys 1, 17, 0, 8; then
  \<open>rehash(1)\<close>; then the keys 2, 3, 4.\<close>

definition keys_1_17_0_8 :: "(nat, nat) hopscotch_map" where
  "keys_1_17_0_8 =
     after_insert (identity_config 1) (8, 8)
       (after_insert (identity_config 1) (0, 0)
         (after_insert (identity_config 1) (17, 17)
           (after_insert (identity_config 1) (1, 1)
             (new_map (identity_config 1) 16))))"

definition keys_1_17_0_8_rehashed :: "(nat, nat) hopscotch_map" where
  "keys_1_17_0_8_rehashed = after_rehash (identity_config 1) 1 keys_1_17_0_8"

definition keys_rehashed_2_3_4 :: "(nat, nat) hopscotch_map" where
  "keys_rehashed_2_3_4 =
     after_insert (identity_config 1) (4, 4)
       (after_insert (identity_config 1) (3, 3)
         (after_insert (identity_config 1) (2, 2) keys_1_17_0_8_rehashed))"

section \<open>Properties\<close>

subsection \<open>clear\<close>

lemma bucket_clear_eq: "bucket_clear b = empty_bucket"
  by (simp add: bucket_clear_def empty_bucket_def)

lemma map_bucket_clear: "map bucket_clear bs = replicate (length bs) empty_bucket"
  by (induction bs) (simp_all add: bucket_clear_eq)

text \<open>
  C10. \<open>clear()\<close> removes every entry: afterwards the element count is 0, the overflow list
  is empty and every bucket is the empty bucket, whose metadata word is zero (no
  occupancy, overflow or neighborhood bit). It does not change the length of the bucket
  array, so \<open>bucket_count()\<close> and the home bucket computed for every hash are the same as
  before.
\<close>

theorem clear_empties_and_keeps_bucket_count:
  "m_nb_elements (hopscotch_clear s) = 0 \<and>
   m_overflow_elements (hopscotch_clear s) = [] \<and>
   m_buckets (hopscotch_clear s) = replicate (length (m_buckets s)) empty_bucket \<and>
   m_neighborhood_infos (empty_bucket :: ('k, 'v) hopscotch_bucket) = 0 \<and>
   is_empty (empty_bucket :: ('k, 'v) hopscotch_bucket) \<and>
   \<not> has_overflow (empty_bucket :: ('k, 'v) hopscotch_bucket) \<and>
   get_neighborhood_infos (empty_bucket :: ('k, 'v) hopscotch_bucket) = 0 \<and>
   length (m_buckets (hopscotch_clear s)) = length (m_buckets s) \<and>
   bucket_count cfg (hopscotch_clear s) = bucket_count cfg s \<and>
   bucket_for_hash cfg (hopscotch_clear s) h = bucket_for_hash cfg s h"
  by (simp add: hopscotch_clear_def map_bucket_clear empty_bucket_def is_empty_def
      has_overflow_def get_neighborhood_infos_def bucket_count_def bucket_for_hash_def)

subsection \<open>Buckets: the metadata word through its accessors\<close>

lemma is_empty_iff: "is_empty b \<longleftrightarrow> \<not> bit (m_neighborhood_infos b) 0"
  by (simp add: is_empty_def and_one_eq bit_0 even_iff_mod_2_eq_zero)

lemma has_overflow_iff: "has_overflow b \<longleftrightarrow> bit (m_neighborhood_infos b) 1"
  using and_exp_eq_0_iff_not_bit [of "m_neighborhood_infos b" 1]
  by (simp add: has_overflow_def)

lemma check_neighbor_presence_iff:
  "check_neighbor_presence b i \<longleftrightarrow> bit (m_neighborhood_infos b) (i + 2)"
  by (simp add: check_neighbor_presence_def NB_RESERVED_BITS_IN_NEIGHBORHOOD_def bit_word_iff_drop_bit_and)

lemma bit_get_neighborhood_infos:
  "bit (get_neighborhood_infos b) i \<longleftrightarrow> check_neighbor_presence b i"
  by (simp add: get_neighborhood_infos_def check_neighbor_presence_iff NB_RESERVED_BITS_IN_NEIGHBORHOOD_def bit_simps add.commute)


lemma bit_or_1_word: "bit ((w :: 64 word) OR 1) n \<longleftrightarrow> bit w n \<or> n = 0"
  using bit_set_bit_iff [of 0 w n] by (auto simp add: set_bit_eq_or)

lemma bit_and_not_1_word: "bit ((w :: 64 word) AND NOT 1) n \<longleftrightarrow> bit w n \<and> n \<noteq> 0"
  using bit_unset_bit_iff [of 0 w n] by (auto simp add: unset_bit_eq_and_not simp del: not_one_eq)

lemma bit_or_2_word: "bit ((w :: 64 word) OR 2) n \<longleftrightarrow> bit w n \<or> n = 1"
  using bit_set_bit_iff [of 1 w n] by (auto simp add: set_bit_eq_or)

lemma bit_and_not_2_word: "bit ((w :: 64 word) AND NOT 2) n \<longleftrightarrow> bit w n \<and> n \<noteq> 1"
  using bit_unset_bit_iff [of 1 w n] by (auto simp add: unset_bit_eq_and_not)

lemma bit_xor_push_bit_1_word:
  "bit ((w :: 64 word) XOR push_bit m 1) n \<longleftrightarrow> (bit w n \<noteq> (n = m \<and> m < 64))"
  by (auto simp add: bit_xor_iff bit_exp_iff)

lemma bit_set_is_empty:
  "bit (m_neighborhood_infos (set_is_empty e b)) n \<longleftrightarrow>
     (if n = 0 then \<not> e else bit (m_neighborhood_infos b) n)"
  using bit_or_1_word [of "m_neighborhood_infos b" n]
    bit_and_not_1_word [of "m_neighborhood_infos b" n]
  by (auto simp: set_is_empty_def)

lemma bit_set_overflow:
  "bit (m_neighborhood_infos (set_overflow f b)) n \<longleftrightarrow>
     (if n = 1 then f else bit (m_neighborhood_infos b) n)"
  using bit_or_2_word [of "m_neighborhood_infos b" n]
    bit_and_not_2_word [of "m_neighborhood_infos b" n]
  by (auto simp: set_overflow_def)

lemma bit_toggle_neighbor_presence:
  "bit (m_neighborhood_infos (toggle_neighbor_presence i b)) n \<longleftrightarrow>
     (bit (m_neighborhood_infos b) n \<noteq> (n = i + 2 \<and> i < 62))"
  using bit_xor_push_bit_1_word [of "m_neighborhood_infos b" "i + 2" n]
  by (auto simp: toggle_neighbor_presence_def NB_RESERVED_BITS_IN_NEIGHBORHOOD_def)

lemma m_key_value_set_is_empty [simp]: "m_key_value (set_is_empty e b) = m_key_value b"
  by (simp add: set_is_empty_def)

lemma set_is_empty_views [simp]:
  "is_empty (set_is_empty e b) = e"
  "has_overflow (set_is_empty e b) = has_overflow b"
  "check_neighbor_presence (set_is_empty e b) i = check_neighbor_presence b i"
  by (simp_all add: is_empty_iff has_overflow_iff check_neighbor_presence_iff bit_set_is_empty)

lemma set_key_value_views [simp]:
  "is_empty (set_key_value kv b) = False"
  "has_overflow (set_key_value kv b) = has_overflow b"
  "check_neighbor_presence (set_key_value kv b) i = check_neighbor_presence b i"
  "m_key_value (set_key_value kv b) = Some kv"
  by (simp_all add: set_key_value_def is_empty_iff has_overflow_iff check_neighbor_presence_iff
      bit_set_is_empty)

lemma remove_key_value_views [simp]:
  "is_empty (remove_key_value b) = True"
  "has_overflow (remove_key_value b) = has_overflow b"
  "check_neighbor_presence (remove_key_value b) i = check_neighbor_presence b i"
  "m_key_value (remove_key_value b) = (if is_empty b then m_key_value b else None)"
  by (simp_all add: remove_key_value_def is_empty_iff has_overflow_iff check_neighbor_presence_iff
      bit_set_is_empty)

lemma toggle_neighbor_presence_views [simp]:
  "is_empty (toggle_neighbor_presence n b) = is_empty b"
  "has_overflow (toggle_neighbor_presence n b) = has_overflow b"
  "m_key_value (toggle_neighbor_presence n b) = m_key_value b"
  "check_neighbor_presence (toggle_neighbor_presence n b) i =
     (if i = n \<and> n < 62 then \<not> check_neighbor_presence b i else check_neighbor_presence b i)"
  by (auto simp: is_empty_iff has_overflow_iff check_neighbor_presence_iff
      bit_toggle_neighbor_presence)
     (simp add: toggle_neighbor_presence_def)

lemma set_overflow_views [simp]:
  "is_empty (set_overflow f b) = is_empty b"
  "has_overflow (set_overflow f b) = f"
  "m_key_value (set_overflow f b) = m_key_value b"
  "check_neighbor_presence (set_overflow f b) i = check_neighbor_presence b i"
  by (auto simp: is_empty_iff has_overflow_iff check_neighbor_presence_iff
      bit_set_overflow)
     (simp add: set_overflow_def)

lemma empty_bucket_views [simp]:
  "is_empty empty_bucket"
  "\<not> has_overflow empty_bucket"
  "\<not> check_neighbor_presence empty_bucket i"
  "m_key_value empty_bucket = None"
  by (auto simp: empty_bucket_def is_empty_iff has_overflow_iff check_neighbor_presence_iff)

lemma swap_key_value_with_empty_bucket_eq:
  "\<not> is_empty a \<Longrightarrow> is_empty e \<Longrightarrow>
   swap_key_value_with_empty_bucket a e = (remove_key_value a, set_key_value (get_key_value a) e)"
  by (simp add: swap_key_value_with_empty_bucket_def remove_key_value_def set_key_value_def)

lemma check_neighbor_presence_bound: "check_neighbor_presence b i \<Longrightarrow> i < 62"
  using bit_imp_le_length [of "m_neighborhood_infos b" "i + 2"]
  by (simp add: check_neighbor_presence_iff)

subsection \<open>Bucket selection\<close>

lemma and_pow2_minus_1_nat: "(h :: nat) AND (2 ^ k - 1) = h mod 2 ^ k"
proof -
  have "h AND (2 ^ k - 1) = h AND mask k"
    by (simp only: mask_eq_exp_minus_1)
  also have "\<dots> = take_bit k h"
    by (simp only: take_bit_eq_mask)
  also have "\<dots> = h mod 2 ^ k"
    by (rule take_bit_eq_mod)
  finally show ?thesis .
qed

lemma find_empty_bucket_loop_props:
  "find_empty_bucket_loop bs limit i = e \<Longrightarrow> e < length bs \<Longrightarrow> limit \<le> length bs \<Longrightarrow>
   i \<le> e \<and> e < limit \<and> is_empty (bs ! e) \<and> (\<forall>j. i \<le> j \<and> j < e \<longrightarrow> \<not> is_empty (bs ! j))"
proof (induction bs limit i rule: find_empty_bucket_loop.induct)
  case (1 bs limit i)
  show ?case
  proof (cases "i < limit")
    case False
    with "1.prems" show ?thesis
      by (simp add: find_empty_bucket_loop.simps [of bs limit i])
  next
    case True
    show ?thesis
    proof (cases "is_empty (bs ! i)")
      case True
      with \<open>i < limit\<close> "1.prems" show ?thesis
        by (auto simp add: find_empty_bucket_loop.simps [of bs limit i])
    next
      case False
      with \<open>i < limit\<close> "1.prems" have "find_empty_bucket_loop bs limit (i + 1) = e"
        by (simp add: find_empty_bucket_loop.simps [of bs limit i])
      from "1.IH" [OF \<open>i < limit\<close> False this "1.prems"(2,3)]
      have IH: "i + 1 \<le> e" "e < limit" "is_empty (bs ! e)"
        "\<And>j. i + 1 \<le> j \<Longrightarrow> j < e \<Longrightarrow> \<not> is_empty (bs ! j)"
        by auto
      have "\<not> is_empty (bs ! j)" if "i \<le> j" "j < e" for j
        using that IH(4) [of j] False by (cases "j = i") auto
      with IH show ?thesis by auto
    qed
  qed
qed


lemma find_empty_bucket_props:
  assumes "find_empty_bucket bs i = e" and "e < length bs"
  shows "i \<le> e" and "is_empty (bs ! e)" and "\<And>j. i \<le> j \<Longrightarrow> j < e \<Longrightarrow> \<not> is_empty (bs ! j)"
  using find_empty_bucket_loop_props [OF assms(1) [unfolded find_empty_bucket_def] assms(2)]
  by auto

lemma nb_buckets_of_m_buckets [simp]: "nb_buckets_of cfg (m_buckets s) = bucket_count cfg s"
  by (simp add: nb_buckets_of_def bucket_count_def)

lemma nb_buckets_of_cong_length:
  "length bs' = length bs \<Longrightarrow> nb_buckets_of cfg bs' = nb_buckets_of cfg bs"
  by (simp add: nb_buckets_of_def)

lemma bucket_for_hash_cases:
  "bucket_for_hash cfg s (m_hash cfg key) =
     (if \<not> USE_POWER_OF_TWO_MOD cfg \<and> bucket_count cfg s = 0 then Inl division_by_zero
      else Inr (home_of cfg (m_buckets s) key))"
  by (simp add: bucket_for_hash_def home_of_def bucket_for_hash_nb_def)

lemma bucket_for_hash_home_of:
  "bucket_for_hash cfg s (m_hash cfg key) = Inr i \<Longrightarrow> i = home_of cfg (m_buckets s) key"
  by (simp add: bucket_for_hash_cases split: if_splits)

lemma bucket_for_hash_Inl:
  "bucket_for_hash cfg s h = Inl e \<Longrightarrow>
   e = division_by_zero \<and> \<not> USE_POWER_OF_TWO_MOD cfg \<and> bucket_count cfg s = 0"
  by (simp add: bucket_for_hash_def bucket_for_hash_nb_def split: if_splits)

lemma home_bucket_Inr:
  "home_bucket cfg s key = Inr i \<Longrightarrow>
   i = home_of cfg (m_buckets s) key \<and> i < length (m_buckets s) \<and>
   bucket_for_hash cfg s (m_hash cfg key) = Inr i"
  by (auto simp: home_bucket_def bucket_for_hash_cases split: sum.splits if_splits)

lemma pow2_mask:
  assumes "nb = (2 :: nat) ^ k" and "nb < 2 ^ 64"
  shows "h AND ((nb + 2 ^ 64 - 1) mod 2 ^ 64) = h mod nb"
proof -
  have "(1 :: nat) \<le> 2 ^ k" by simp
  with assms have m: "(nb + 2 ^ 64 - 1) mod 2 ^ 64 = 2 ^ k - 1"
    by (simp add: mod_if)
  show ?thesis unfolding m unfolding assms(1) by (rule and_pow2_minus_1_nat)
qed

lemma nb_buckets_of_less: "nb_buckets_of cfg bs < 2 ^ 64"
  by (simp add: nb_buckets_of_def)

lemma home_of_mod:
  assumes "buckets_inv cfg bs"
  shows "home_of cfg bs key = m_hash cfg key mod nb_buckets_of cfg bs"
proof (cases "USE_POWER_OF_TWO_MOD cfg")
  case True
  with assms obtain k where "nb_buckets_of cfg bs = 2 ^ k" by (auto simp: buckets_inv_def)
  from pow2_mask [OF this nb_buckets_of_less] True show ?thesis by (simp add: home_of_def)
next
  case False
  then show ?thesis by (simp add: home_of_def)
qed

subsection \<open>Placing and removing an entry\<close>

lemma home_of_cong_length: "length bs' = length bs \<Longrightarrow> home_of cfg bs' = home_of cfg bs"
  by (simp add: home_of_def fun_eq_iff nb_buckets_of_def)

lemma key_at_cong: "m_key_value (bs' ! j) = m_key_value (bs ! j) \<Longrightarrow> key_at bs' j = key_at bs j"
  by (simp add: key_at_def get_key_value_def)

lemma buckets_inv_place:
  assumes inv: "buckets_inv cfg bs"
    and e: "e < length bs" "is_empty (bs ! e)"
    and i: "i = home_of cfg bs (fst kv)" "i \<le> e" "e < i + NeighborhoodSize cfg"
    and len: "length bs' = length bs"
    and emp: "\<And>j. j < length bs \<Longrightarrow> is_empty (bs' ! j) = (j \<noteq> e \<and> is_empty (bs ! j))"
    and kvs: "\<And>j. j < length bs \<Longrightarrow>
                m_key_value (bs' ! j) = (if j = e then Some kv else m_key_value (bs ! j))"
    and nbs: "\<And>j b. j < length bs \<Longrightarrow>
                check_neighbor_presence (bs' ! j) b =
                  ((j = i \<and> b = e - i) \<or> check_neighbor_presence (bs ! j) b)"
  shows "buckets_inv cfg bs'"
proof -
  from inv have sc: "storage_consistent bs" and nc: "neighborhood_consistent cfg bs"
    and nw: "no_wraparound cfg bs" by (simp_all add: buckets_inv_def)
  have home: "home_of cfg bs' = home_of cfg bs" by (rule home_of_cong_length [OF len])
  have key_e: "key_at bs' e = fst kv" using kvs [OF e(1)] by (simp add: key_at_def get_key_value_def)
  have key_other: "key_at bs' j = key_at bs j" if "j < length bs" "j \<noteq> e" for j
    using kvs [OF that(1)] that(2) by (simp add: key_at_def get_key_value_def)
  have "storage_consistent bs'"
    unfolding storage_consistent_def
  proof (intro allI impI)
    fix j assume "j < length bs'"
    then have j: "j < length bs" by (simp add: len)
    from sc j have "is_empty (bs ! j) \<longleftrightarrow> m_key_value (bs ! j) = None"
      by (simp add: storage_consistent_def)
    then show "is_empty (bs' ! j) \<longleftrightarrow> m_key_value (bs' ! j) = None"
      using emp [OF j] kvs [OF j] by auto
  qed
  moreover have "neighborhood_consistent cfg bs'"
    unfolding neighborhood_consistent_def
  proof (intro allI impI)
    fix j b assume "j < length bs'"
    then have j: "j < length bs" by (simp add: len)
    from nc j have old: "check_neighbor_presence (bs ! j) b \<longleftrightarrow>
        (j + b < length bs \<and> \<not> is_empty (bs ! (j + b)) \<and> home_of cfg bs (key_at bs (j + b)) = j)"
      by (simp add: neighborhood_consistent_def)
    show "check_neighbor_presence (bs' ! j) b \<longleftrightarrow>
        (j + b < length bs' \<and> \<not> is_empty (bs' ! (j + b)) \<and> home_of cfg bs' (key_at bs' (j + b)) = j)"
    proof (cases "j + b = e")
      case True
      with old e have "\<not> check_neighbor_presence (bs ! j) b" by simp
      with True show ?thesis
        using nbs [OF j, of b] emp [OF e(1)] e(1) i key_e by (auto simp: len home)
    next
      case False
      then have "\<not> (j = i \<and> b = e - i)" using i by auto
      with False show ?thesis
        using nbs [OF j, of b] old emp [of "j + b"] key_other [of "j + b"]
        by (auto simp: len home)
    qed
  qed
  moreover have "no_wraparound cfg bs'"
    unfolding no_wraparound_def
  proof (intro allI impI)
    fix j assume "j < length bs'" and occ: "\<not> is_empty (bs' ! j)"
    then have j: "j < length bs" by (simp add: len)
    show "home_of cfg bs' (key_at bs' j) \<le> j \<and>
          j < home_of cfg bs' (key_at bs' j) + NeighborhoodSize cfg"
    proof (cases "j = e")
      case True
      with i key_e show ?thesis by (simp add: home)
    next
      case False
      with occ emp [OF j] have "\<not> is_empty (bs ! j)" by simp
      with nw j have "home_of cfg bs (key_at bs j) \<le> j \<and>
          j < home_of cfg bs (key_at bs j) + NeighborhoodSize cfg"
        by (simp add: no_wraparound_def)
      with False key_other [OF j] show ?thesis by (simp add: home)
    qed
  qed
  ultimately show ?thesis
    using inv by (simp add: buckets_inv_def nb_buckets_of_cong_length [OF len])
qed

lemma buckets_inv_remove:
  assumes inv: "buckets_inv cfg bs"
    and t: "t < length bs" "\<not> is_empty (bs ! t)"
    and i: "i = home_of cfg bs (key_at bs t)"
    and len: "length bs' = length bs"
    and emp: "\<And>j. j < length bs \<Longrightarrow> is_empty (bs' ! j) = (j = t \<or> is_empty (bs ! j))"
    and kvs: "\<And>j. j < length bs \<Longrightarrow>
                m_key_value (bs' ! j) = (if j = t then None else m_key_value (bs ! j))"
    and nbs: "\<And>j b. j < length bs \<Longrightarrow>
                check_neighbor_presence (bs' ! j) b =
                  (\<not> (j = i \<and> b = t - i) \<and> check_neighbor_presence (bs ! j) b)"
  shows "buckets_inv cfg bs'"
proof -
  from inv have sc: "storage_consistent bs" and nc: "neighborhood_consistent cfg bs"
    and nw: "no_wraparound cfg bs" by (simp_all add: buckets_inv_def)
  have home: "home_of cfg bs' = home_of cfg bs" by (rule home_of_cong_length [OF len])
  have key_other: "key_at bs' j = key_at bs j" if "j < length bs" "j \<noteq> t" for j
    using kvs [OF that(1)] that(2) by (simp add: key_at_def get_key_value_def)
  from nw t i have it: "i \<le> t" by (simp add: no_wraparound_def)
  have "storage_consistent bs'"
    unfolding storage_consistent_def
  proof (intro allI impI)
    fix j assume "j < length bs'"
    then have j: "j < length bs" by (simp add: len)
    from sc j have "is_empty (bs ! j) \<longleftrightarrow> m_key_value (bs ! j) = None"
      by (simp add: storage_consistent_def)
    then show "is_empty (bs' ! j) \<longleftrightarrow> m_key_value (bs' ! j) = None"
      using emp [OF j] kvs [OF j] by auto
  qed
  moreover have "neighborhood_consistent cfg bs'"
    unfolding neighborhood_consistent_def
  proof (intro allI impI)
    fix j b assume "j < length bs'"
    then have j: "j < length bs" by (simp add: len)
    from nc j have old: "check_neighbor_presence (bs ! j) b \<longleftrightarrow>
        (j + b < length bs \<and> \<not> is_empty (bs ! (j + b)) \<and> home_of cfg bs (key_at bs (j + b)) = j)"
      by (simp add: neighborhood_consistent_def)
    show "check_neighbor_presence (bs' ! j) b \<longleftrightarrow>
        (j + b < length bs' \<and> \<not> is_empty (bs' ! (j + b)) \<and> home_of cfg bs' (key_at bs' (j + b)) = j)"
    proof (cases "j + b = t")
      case True
      then show ?thesis
        using nbs [OF j, of b] old emp [OF t(1)] i it by (auto simp: len home)
    next
      case False
      then have "\<not> (j = i \<and> b = t - i)" using it by auto
      with False show ?thesis
        using nbs [OF j, of b] old emp [of "j + b"] key_other [of "j + b"]
        by (auto simp: len home)
    qed
  qed
  moreover have "no_wraparound cfg bs'"
    unfolding no_wraparound_def
  proof (intro allI impI)
    fix j assume "j < length bs'" and occ: "\<not> is_empty (bs' ! j)"
    then have j: "j < length bs" by (simp add: len)
    from occ emp [OF j] have jt: "j \<noteq> t" and "\<not> is_empty (bs ! j)" by auto
    with nw j have "home_of cfg bs (key_at bs j) \<le> j \<and>
        j < home_of cfg bs (key_at bs j) + NeighborhoodSize cfg"
      by (simp add: no_wraparound_def)
    with jt key_other [OF j] show "home_of cfg bs' (key_at bs' j) \<le> j \<and>
          j < home_of cfg bs' (key_at bs' j) + NeighborhoodSize cfg"
      by (simp add: home)
  qed
  ultimately show ?thesis
    using inv by (simp add: buckets_inv_def nb_buckets_of_cong_length [OF len])
qed

subsection \<open>The stored pairs\<close>

lemma mset_bucket_elements:
  "mset (bucket_elements bs) =
     image_mset (\<lambda>j. get_key_value (bs ! j)) (mset_set {j. j < length bs \<and> \<not> is_empty (bs ! j)})"
proof -
  have "bucket_elements bs =
      map (\<lambda>j. get_key_value (bs ! j)) (filter (\<lambda>j. \<not> is_empty (bs ! j)) [0..<length bs])"
  proof -
    have "filter (\<lambda>b. \<not> is_empty b) (map ((!) bs) [0..<length bs]) =
        map ((!) bs) (filter (\<lambda>j. \<not> is_empty (bs ! j)) [0..<length bs])"
      by (simp add: filter_map comp_def)
    then show ?thesis
      by (simp add: bucket_elements_def map_nth comp_def)
  qed
  moreover have "mset (filter (\<lambda>j. \<not> is_empty (bs ! j)) [0..<length bs]) =
      mset_set {j. j < length bs \<and> \<not> is_empty (bs ! j)}"
  proof -
    have "mset (filter (\<lambda>j. \<not> is_empty (bs ! j)) [0..<length bs]) =
        filter_mset (\<lambda>j. \<not> is_empty (bs ! j)) (mset_set {0..<length bs})"
      by simp
    also have "\<dots> = mset_set {j \<in> {0..<length bs}. \<not> is_empty (bs ! j)}"
      by (rule filter_mset_mset_set) simp
    also have "{j \<in> {0..<length bs}. \<not> is_empty (bs ! j)} = {j. j < length bs \<and> \<not> is_empty (bs ! j)}"
      by auto
    finally show ?thesis .
  qed
  ultimately show ?thesis
    by (simp only: mset_map)
qed

lemma mset_bucket_elements_place:
  assumes e: "e < length bs" "is_empty (bs ! e)"
    and len: "length bs' = length bs"
    and emp: "\<And>j. j < length bs \<Longrightarrow> is_empty (bs' ! j) = (j \<noteq> e \<and> is_empty (bs ! j))"
    and kvs: "\<And>j. j < length bs \<Longrightarrow>
                m_key_value (bs' ! j) = (if j = e then Some kv else m_key_value (bs ! j))"
  shows "mset (bucket_elements bs') = add_mset kv (mset (bucket_elements bs))"
proof -
  let ?A = "{j. j < length bs \<and> \<not> is_empty (bs ! j)}"
  have fin: "finite ?A" by simp
  have notin: "e \<notin> ?A" using e by simp
  have set: "{j. j < length bs' \<and> \<not> is_empty (bs' ! j)} = insert e ?A"
    using emp e by (auto simp: len)
  have "image_mset (\<lambda>j. get_key_value (bs' ! j)) (mset_set ?A) =
      image_mset (\<lambda>j. get_key_value (bs ! j)) (mset_set ?A)"
    by (rule image_mset_cong) (use kvs notin in \<open>auto simp: get_key_value_def\<close>)
  moreover have "get_key_value (bs' ! e) = kv"
    using kvs [OF e(1)] by (simp add: get_key_value_def)
  ultimately show ?thesis
    by (simp add: mset_bucket_elements set mset_set.insert [OF fin notin])
qed

lemma mset_bucket_elements_remove:
  assumes t: "t < length bs" "\<not> is_empty (bs ! t)"
    and len: "length bs' = length bs"
    and emp: "\<And>j. j < length bs \<Longrightarrow> is_empty (bs' ! j) = (j = t \<or> is_empty (bs ! j))"
    and kvs: "\<And>j. j < length bs \<Longrightarrow>
                m_key_value (bs' ! j) = (if j = t then None else m_key_value (bs ! j))"
  shows "add_mset (get_key_value (bs ! t)) (mset (bucket_elements bs')) = mset (bucket_elements bs)"
proof -
  let ?A = "{j. j < length bs' \<and> \<not> is_empty (bs' ! j)}"
  have fin: "finite ?A" by simp
  have notin: "t \<notin> ?A" using emp [OF t(1)] t by (simp add: len)
  have set: "{j. j < length bs \<and> \<not> is_empty (bs ! j)} = insert t ?A"
    using emp t by (auto simp: len)
  have "image_mset (\<lambda>j. get_key_value (bs' ! j)) (mset_set ?A) =
      image_mset (\<lambda>j. get_key_value (bs ! j)) (mset_set ?A)"
    by (rule image_mset_cong) (use kvs notin in \<open>auto simp: get_key_value_def len\<close>)
  then show ?thesis
    by (simp add: mset_bucket_elements set mset_set.insert [OF fin notin])
qed

lemma mset_bucket_elements_cong:
  assumes len: "length bs' = length bs"
    and emp: "\<And>j. j < length bs \<Longrightarrow> is_empty (bs' ! j) = is_empty (bs ! j)"
    and kvs: "\<And>j. j < length bs \<Longrightarrow> m_key_value (bs' ! j) = m_key_value (bs ! j)"
  shows "mset (bucket_elements bs') = mset (bucket_elements bs)"
proof -
  have "{j. j < length bs' \<and> \<not> is_empty (bs' ! j)} = {j. j < length bs \<and> \<not> is_empty (bs ! j)}"
    using emp by (auto simp: len)
  moreover have "image_mset (\<lambda>j. get_key_value (bs' ! j)) (mset_set {j. j < length bs \<and> \<not> is_empty (bs ! j)}) =
      image_mset (\<lambda>j. get_key_value (bs ! j)) (mset_set {j. j < length bs \<and> \<not> is_empty (bs ! j)})"
    by (rule image_mset_cong) (use kvs in \<open>auto simp: get_key_value_def\<close>)
  ultimately show ?thesis
    by (simp add: mset_bucket_elements)
qed

subsection \<open>The bucket operations through the accessors\<close>

lemma insert_in_bucket_views:
  assumes "e < length (m_buckets s)" "i \<le> e"
  shows "length (m_buckets (insert_in_bucket kv e i s)) = length (m_buckets s)"
    and "\<And>j. j < length (m_buckets s) \<Longrightarrow>
          is_empty (m_buckets (insert_in_bucket kv e i s) ! j) = (j \<noteq> e \<and> is_empty (m_buckets s ! j))"
    and "\<And>j. j < length (m_buckets s) \<Longrightarrow>
          m_key_value (m_buckets (insert_in_bucket kv e i s) ! j) =
            (if j = e then Some kv else m_key_value (m_buckets s ! j))"
    and "\<And>j. j < length (m_buckets s) \<Longrightarrow>
          has_overflow (m_buckets (insert_in_bucket kv e i s) ! j) = has_overflow (m_buckets s ! j)"
    and "\<And>j b. j < length (m_buckets s) \<Longrightarrow> e - i < 62 \<Longrightarrow>
          check_neighbor_presence (m_buckets (insert_in_bucket kv e i s) ! j) b =
            ((j = i \<and> b = e - i) \<noteq> check_neighbor_presence (m_buckets s ! j) b)"
  using assms by (auto simp: insert_in_bucket_def Let_def nth_list_update)

lemma erase_from_bucket_views:
  assumes "t < length (m_buckets s)" "i \<le> t"
  shows "length (m_buckets (erase_from_bucket t i s)) = length (m_buckets s)"
    and "\<And>j. j < length (m_buckets s) \<Longrightarrow>
          is_empty (m_buckets (erase_from_bucket t i s) ! j) = (j = t \<or> is_empty (m_buckets s ! j))"
    and "\<And>j. j < length (m_buckets s) \<Longrightarrow> \<not> is_empty (m_buckets s ! t) \<Longrightarrow>
          m_key_value (m_buckets (erase_from_bucket t i s) ! j) =
            (if j = t then None else m_key_value (m_buckets s ! j))"
    and "\<And>j. j < length (m_buckets s) \<Longrightarrow>
          has_overflow (m_buckets (erase_from_bucket t i s) ! j) = has_overflow (m_buckets s ! j)"
    and "\<And>j b. j < length (m_buckets s) \<Longrightarrow> t - i < 62 \<Longrightarrow>
          check_neighbor_presence (m_buckets (erase_from_bucket t i s) ! j) b =
            ((j = i \<and> b = t - i) \<noteq> check_neighbor_presence (m_buckets s ! j) b)"
  using assms by (auto simp: erase_from_bucket_def Let_def nth_list_update)

lemma move_to_empty_bucket_views:
  assumes "e < length bs" "t < e" "c \<le> t" "\<not> is_empty (bs ! t)" "is_empty (bs ! e)"
  shows "length (move_to_empty_bucket bs e c t) = length bs"
    and "\<And>j. j < length bs \<Longrightarrow>
          is_empty (move_to_empty_bucket bs e c t ! j) = (j = t \<or> (j \<noteq> e \<and> is_empty (bs ! j)))"
    and "\<And>j. j < length bs \<Longrightarrow>
          m_key_value (move_to_empty_bucket bs e c t ! j) =
            (if j = e then Some (get_key_value (bs ! t)) else if j = t then None
             else m_key_value (bs ! j))"
    and "\<And>j. j < length bs \<Longrightarrow>
          has_overflow (move_to_empty_bucket bs e c t ! j) = has_overflow (bs ! j)"
    and "\<And>j b. j < length bs \<Longrightarrow> e - c < 62 \<Longrightarrow>
          check_neighbor_presence (move_to_empty_bucket bs e c t ! j) b =
            ((j = c \<and> (b = e - c \<or> b = t - c)) \<noteq> check_neighbor_presence (bs ! j) b)"
  using assms
  by (auto simp: move_to_empty_bucket_def Let_def nth_list_update swap_key_value_with_empty_bucket_eq)

subsection \<open>The bucket operations keep the invariant\<close>

lemma static_asserts_N: "static_asserts cfg \<Longrightarrow> 0 < NeighborhoodSize cfg \<and> NeighborhoodSize cfg \<le> 62"
  by (simp add: static_asserts_def MAX_NEIGHBORHOOD_SIZE_def
      NB_RESERVED_BITS_IN_NEIGHBORHOOD_def)

lemma neighborhood_consistentD:
  "buckets_inv cfg bs \<Longrightarrow> i < length bs \<Longrightarrow>
   check_neighbor_presence (bs ! i) b \<longleftrightarrow>
     (i + b < length bs \<and> \<not> is_empty (bs ! (i + b)) \<and> home_of cfg bs (key_at bs (i + b)) = i)"
  by (simp add: buckets_inv_def neighborhood_consistent_def)

lemma no_wraparoundD:
  "buckets_inv cfg bs \<Longrightarrow> j < length bs \<Longrightarrow> \<not> is_empty (bs ! j) \<Longrightarrow>
   home_of cfg bs (key_at bs j) \<le> j \<and> j < home_of cfg bs (key_at bs j) + NeighborhoodSize cfg"
  by (simp add: buckets_inv_def no_wraparound_def)

lemma storage_consistentD:
  "buckets_inv cfg bs \<Longrightarrow> j < length bs \<Longrightarrow> is_empty (bs ! j) \<longleftrightarrow> m_key_value (bs ! j) = None"
  by (simp add: buckets_inv_def storage_consistent_def)

lemma insert_in_bucket_buckets_inv:
  assumes cfg: "static_asserts cfg" and inv: "buckets_inv cfg (m_buckets s)"
    and e: "e < length (m_buckets s)" "is_empty (m_buckets s ! e)"
    and i: "i = home_of cfg (m_buckets s) (fst kv)" "i \<le> e" "e < i + NeighborhoodSize cfg"
  shows "buckets_inv cfg (m_buckets (insert_in_bucket kv e i s))"
    and "mset (bucket_elements (m_buckets (insert_in_bucket kv e i s))) =
           add_mset kv (mset (bucket_elements (m_buckets s)))"
proof -
  let ?bs = "m_buckets s" and ?bs' = "m_buckets (insert_in_bucket kv e i s)"
  note v = insert_in_bucket_views [OF e(1) i(2), where kv = kv]
  from i static_asserts_N [OF cfg] have small: "e - i < 62" by linarith
  from i e have "i < length ?bs" by simp
  from neighborhood_consistentD [OF inv this, of "e - i"] e i
  have notset: "\<not> check_neighbor_presence (?bs ! i) (e - i)" by simp
  show "buckets_inv cfg ?bs'"
  proof (rule buckets_inv_place [OF inv e i v(1) v(2) v(3)])
    fix j b assume "j < length ?bs"
    from v(5) [OF this small, of b] notset
    show "check_neighbor_presence (?bs' ! j) b =
        (j = i \<and> b = e - i \<or> check_neighbor_presence (?bs ! j) b)"
      by auto
  qed
  show "mset (bucket_elements ?bs') = add_mset kv (mset (bucket_elements ?bs))"
    by (rule mset_bucket_elements_place [OF e v(1) v(2) v(3)])
qed

lemma erase_from_bucket_buckets_inv:
  assumes cfg: "static_asserts cfg" and inv: "buckets_inv cfg (m_buckets s)"
    and t: "t < length (m_buckets s)" "\<not> is_empty (m_buckets s ! t)"
    and i: "i = home_of cfg (m_buckets s) (key_at (m_buckets s) t)"
  shows "buckets_inv cfg (m_buckets (erase_from_bucket t i s))"
    and "add_mset (get_key_value (m_buckets s ! t))
           (mset (bucket_elements (m_buckets (erase_from_bucket t i s)))) =
         mset (bucket_elements (m_buckets s))"
proof -
  let ?bs = "m_buckets s" and ?bs' = "m_buckets (erase_from_bucket t i s)"
  from no_wraparoundD [OF inv t] i have it: "i \<le> t" "t < i + NeighborhoodSize cfg" by simp_all
  note v = erase_from_bucket_views [OF t(1) it(1)]
  from it static_asserts_N [OF cfg] have small: "t - i < 62" by linarith
  from it t have "i < length ?bs" by simp
  from neighborhood_consistentD [OF inv this, of "t - i"] t i it
  have isset: "check_neighbor_presence (?bs ! i) (t - i)" by simp
  show "buckets_inv cfg ?bs'"
  proof (rule buckets_inv_remove [OF inv t i v(1) v(2)])
    fix j assume "j < length ?bs"
    then show "m_key_value (?bs' ! j) = (if j = t then None else m_key_value (?bs ! j))"
      using v(3) t(2) by simp
  next
    fix j b assume "j < length ?bs"
    from v(5) [OF this small, of b] isset
    show "check_neighbor_presence (?bs' ! j) b =
        (\<not> (j = i \<and> b = t - i) \<and> check_neighbor_presence (?bs ! j) b)"
      by auto
  qed
  show "add_mset (get_key_value (?bs ! t)) (mset (bucket_elements ?bs')) = mset (bucket_elements ?bs)"
  proof (rule mset_bucket_elements_remove [OF t v(1) v(2)])
    fix j assume "j < length ?bs"
    then show "m_key_value (?bs' ! j) = (if j = t then None else m_key_value (?bs ! j))"
      using v(3) t(2) by simp
  qed
qed

lemma move_to_empty_bucket_buckets_inv:
  assumes cfg: "static_asserts cfg" and inv: "buckets_inv cfg bs"
    and e: "e < length bs" "is_empty (bs ! e)"
    and c: "c + b < e" "e < c + NeighborhoodSize cfg" "check_neighbor_presence (bs ! c) b"
  shows "buckets_inv cfg (move_to_empty_bucket bs e c (c + b))"
    and "mset (bucket_elements (move_to_empty_bucket bs e c (c + b))) = mset (bucket_elements bs)"
    and "length (move_to_empty_bucket bs e c (c + b)) = length bs"
    and "is_empty (move_to_empty_bucket bs e c (c + b) ! (c + b))"
    and "\<And>j. j < length bs \<Longrightarrow>
          has_overflow (move_to_empty_bucket bs e c (c + b) ! j) = has_overflow (bs ! j)"
    and "\<And>j. j < length bs \<Longrightarrow> j \<noteq> c + b \<Longrightarrow> \<not> is_empty (bs ! j) \<Longrightarrow>
          \<not> is_empty (move_to_empty_bucket bs e c (c + b) ! j)"
proof -
  define t where "t = c + b"
  define mid where "mid = (bs[t := remove_key_value (bs ! t)])[c :=
      toggle_neighbor_presence (t - c) ((bs[t := remove_key_value (bs ! t)]) ! c)]"
  let ?bs' = "move_to_empty_bucket bs e c t"
  have ct: "c \<le> t" "t < e" "t < length bs" "c < length bs" using c e by (simp_all add: t_def)
  from neighborhood_consistentD [OF inv ct(4), of b] c(3)
  have t_occ: "\<not> is_empty (bs ! t)" and t_home: "home_of cfg bs (key_at bs t) = c"
    by (simp_all add: t_def)
  from c static_asserts_N [OF cfg] have small: "e - c < 62" "t - c < 62" "t - c = b" "e - c \<noteq> t - c"
    by (simp_all add: t_def)
  from neighborhood_consistentD [OF inv ct(4), of "e - c"] e c
  have e_notset: "\<not> check_neighbor_presence (bs ! c) (e - c)" by simp
  note v = move_to_empty_bucket_views [OF e(1) ct(2) ct(1) t_occ e(2)]
  have mid_len: "length mid = length bs" by (simp add: mid_def)
  have mid_emp: "is_empty (mid ! j) = (j = t \<or> is_empty (bs ! j))" if "j < length bs" for j
    using that ct by (auto simp: mid_def nth_list_update)
  have mid_kv: "m_key_value (mid ! j) = (if j = t then None else m_key_value (bs ! j))"
    if "j < length bs" for j
    using that ct t_occ by (auto simp: mid_def nth_list_update)
  have mid_nb: "check_neighbor_presence (mid ! j) k =
      (\<not> (j = c \<and> k = t - c) \<and> check_neighbor_presence (bs ! j) k)" if "j < length bs" for j k
    using that ct small c(3) by (auto simp: mid_def nth_list_update)
  have mid_inv: "buckets_inv cfg mid"
    by (rule buckets_inv_remove [OF inv ct(3) t_occ t_home [symmetric] mid_len mid_emp mid_kv mid_nb])
  have mid_home: "home_of cfg mid = home_of cfg bs" by (rule home_of_cong_length [OF mid_len])
  have "buckets_inv cfg ?bs'"
  proof (rule buckets_inv_place [where bs = mid and e = e and i = c and kv = "get_key_value (bs ! t)"])
    show "buckets_inv cfg mid" by (rule mid_inv)
    show "e < length mid" using e by (simp add: mid_len)
    show "is_empty (mid ! e)" using mid_emp [OF e(1)] e(2) by simp
    show "c = home_of cfg mid (fst (get_key_value (bs ! t)))"
      using t_home by (simp add: mid_home key_at_def)
    show "c \<le> e" using ct by simp
    show "e < c + NeighborhoodSize cfg" by (rule c(2))
    show "length ?bs' = length mid" by (simp add: v(1) mid_len)
  next
    fix j assume "j < length mid"
    then have j: "j < length bs" by (simp add: mid_len)
    show "is_empty (?bs' ! j) = (j \<noteq> e \<and> is_empty (mid ! j))"
      using v(2) [OF j] mid_emp [OF j] ct by auto
    show "m_key_value (?bs' ! j) = (if j = e then Some (get_key_value (bs ! t)) else m_key_value (mid ! j))"
      using v(3) [OF j] mid_kv [OF j] by auto
    fix k
    show "check_neighbor_presence (?bs' ! j) k =
        (j = c \<and> k = e - c \<or> check_neighbor_presence (mid ! j) k)"
      using v(5) [OF j small(1), of k] mid_nb [OF j, of k] e_notset c(3) small by auto
  qed
  then show "buckets_inv cfg (move_to_empty_bucket bs e c (c + b))" by (simp add: t_def)
  have "add_mset (get_key_value (bs ! t)) (mset (bucket_elements mid)) = mset (bucket_elements bs)"
    by (rule mset_bucket_elements_remove [OF ct(3) t_occ mid_len mid_emp mid_kv])
  moreover have "mset (bucket_elements ?bs') = add_mset (get_key_value (bs ! t)) (mset (bucket_elements mid))"
  proof (rule mset_bucket_elements_place [where e = e])
    show "e < length mid" using e by (simp add: mid_len)
    show "is_empty (mid ! e)" using mid_emp [OF e(1)] e(2) by simp
    show "length ?bs' = length mid" by (simp add: v(1) mid_len)
  next
    fix j assume "j < length mid"
    then have j: "j < length bs" by (simp add: mid_len)
    show "is_empty (?bs' ! j) = (j \<noteq> e \<and> is_empty (mid ! j))"
      using v(2) [OF j] mid_emp [OF j] ct by auto
    show "m_key_value (?bs' ! j) = (if j = e then Some (get_key_value (bs ! t)) else m_key_value (mid ! j))"
      using v(3) [OF j] mid_kv [OF j] by auto
  qed
  ultimately show "mset (bucket_elements (move_to_empty_bucket bs e c (c + b))) = mset (bucket_elements bs)"
    by (simp add: t_def)
  show "length (move_to_empty_bucket bs e c (c + b)) = length bs"
    using v(1) by (simp add: t_def)
  show "is_empty (move_to_empty_bucket bs e c (c + b) ! (c + b))"
    using v(2) [OF ct(3)] by (simp add: t_def)
  show "\<And>j. j < length bs \<Longrightarrow>
          has_overflow (move_to_empty_bucket bs e c (c + b) ! j) = has_overflow (bs ! j)"
    using v(4) by (simp add: t_def)
  show "\<And>j. j < length bs \<Longrightarrow> j \<noteq> c + b \<Longrightarrow> \<not> is_empty (bs ! j) \<Longrightarrow>
          \<not> is_empty (move_to_empty_bucket bs e c (c + b) ! j)"
    using v(2) by (simp add: t_def)
qed

subsection \<open>The scan of \<open>swap_empty_bucket_closer\<close>\<close>

lemma word_and_1_eq_1_iff: "(w :: 64 word) AND 1 = 1 \<longleftrightarrow> bit w 0"
  by (simp add: and_one_eq bit_0 mod_2_eq_odd)

lemma swap_closer_scan_Some:
  assumes "swap_closer_scan bs e c w t = Some r"
    and "w = drop_bit (t - c) (get_neighborhood_infos (bs ! c))" and "c \<le> t"
  shows "\<exists>b. t - c \<le> b \<and> check_neighbor_presence (bs ! c) b \<and> c + b < e \<and>
           (\<forall>b'. t - c \<le> b' \<and> b' < b \<longrightarrow> \<not> check_neighbor_presence (bs ! c) b') \<and>
           r = (move_to_empty_bucket bs e c (c + b), c + b)"
  using assms
proof (induction bs e c w t rule: swap_closer_scan.induct)
  case (1 bs e c w t)
  from "1.prems"(1) have guard: "w \<noteq> 0" "t < e"
    by (auto simp: swap_closer_scan.simps [of bs e c w t] split: if_splits)
  have bit0: "bit w 0 \<longleftrightarrow> check_neighbor_presence (bs ! c) (t - c)"
    by (simp add: "1.prems"(2) bit_drop_bit_eq bit_get_neighborhood_infos)
  show ?case
  proof (cases "w AND 1 = 1")
    case True
    with guard "1.prems"(1) have r: "r = (move_to_empty_bucket bs e c t, t)"
      by (simp add: swap_closer_scan.simps [of bs e c w t])
    from True bit0 have "check_neighbor_presence (bs ! c) (t - c)"
      by (simp add: word_and_1_eq_1_iff)
    with r guard "1.prems"(3) show ?thesis
      by (intro exI [of _ "t - c"]) auto
  next
    case False
    with guard "1.prems"(1) have rec: "swap_closer_scan bs e c (drop_bit 1 w) (t + 1) = Some r"
      by (simp add: swap_closer_scan.simps [of bs e c w t])
    have w': "drop_bit 1 w = drop_bit (t + 1 - c) (get_neighborhood_infos (bs ! c))"
      using "1.prems"(3) by (simp add: "1.prems"(2) Suc_diff_le)
    from "1.IH" [OF _ False rec w'] guard "1.prems"(3)
    obtain b where b: "t + 1 - c \<le> b" "check_neighbor_presence (bs ! c) b" "c + b < e"
      "\<forall>b'. t + 1 - c \<le> b' \<and> b' < b \<longrightarrow> \<not> check_neighbor_presence (bs ! c) b'"
      "r = (move_to_empty_bucket bs e c (c + b), c + b)"
      by auto
    from False bit0 have notset: "\<not> check_neighbor_presence (bs ! c) (t - c)"
      by (simp add: word_and_1_eq_1_iff)
    have "\<not> check_neighbor_presence (bs ! c) b'" if "t - c \<le> b'" "b' < b" for b'
    proof (cases "b' = t - c")
      case True with notset show ?thesis by simp
    next
      case False
      with that "1.prems"(3) have "t + 1 - c \<le> b'" by linarith
      with b(4) that show ?thesis by simp
    qed
    with b "1.prems"(3) show ?thesis
      by (intro exI [of _ b]) auto
  qed
qed

lemma swap_closer_scan_None:
  assumes "swap_closer_scan bs e c w t = None"
    and "w = drop_bit (t - c) (get_neighborhood_infos (bs ! c))" and "c \<le> t"
  shows "\<forall>b. t - c \<le> b \<and> c + b < e \<longrightarrow> \<not> check_neighbor_presence (bs ! c) b"
  using assms
proof (induction bs e c w t rule: swap_closer_scan.induct)
  case (1 bs e c w t)
  have bitw: "bit w k \<longleftrightarrow> check_neighbor_presence (bs ! c) (t - c + k)" for k
    by (simp add: "1.prems"(2) bit_drop_bit_eq bit_get_neighborhood_infos)
  show ?case
  proof (cases "w \<noteq> 0 \<and> t < e")
    case False
    show ?thesis
    proof (intro allI impI)
      fix b assume b: "t - c \<le> b \<and> c + b < e"
      with "1.prems"(3) False have "w = 0" by auto
      with bitw [of "b - (t - c)"] b show "\<not> check_neighbor_presence (bs ! c) b" by simp
    qed
  next
    case True
    with "1.prems"(1) have odd: "w AND 1 \<noteq> 1"
      and rec: "swap_closer_scan bs e c (drop_bit 1 w) (t + 1) = None"
      by (auto simp: swap_closer_scan.simps [of bs e c w t] split: if_splits)
    have w': "drop_bit 1 w = drop_bit (t + 1 - c) (get_neighborhood_infos (bs ! c))"
      using "1.prems"(3) by (simp add: "1.prems"(2) Suc_diff_le)
    from "1.IH" [OF True odd rec w'] "1.prems"(3)
    have IH: "\<forall>b. t + 1 - c \<le> b \<and> c + b < e \<longrightarrow> \<not> check_neighbor_presence (bs ! c) b" by simp
    from odd bitw [of 0] have notset: "\<not> check_neighbor_presence (bs ! c) (t - c)"
      by (simp add: word_and_1_eq_1_iff)
    show ?thesis
    proof (intro allI impI)
      fix b assume b: "t - c \<le> b \<and> c + b < e"
      show "\<not> check_neighbor_presence (bs ! c) b"
      proof (cases "b = t - c")
        case True with notset show ?thesis by simp
      next
        case False
        with b "1.prems"(3) have "t + 1 - c \<le> b" by linarith
        with IH b show ?thesis by simp
      qed
    qed
  qed
qed

text \<open>A candidate of \<open>swap_empty_bucket_closer\<close>: home bucket \<open>c\<close> and a set bit \<open>b\<close> of its
  neighborhood bitmap whose bucket lies before the empty bucket.\<close>

lemma swap_closer_candidates_Some:
  assumes "swap_closer_candidates bs e c0 = Some r"
  shows "\<exists>c b. c0 \<le> c \<and> c < e \<and> check_neighbor_presence (bs ! c) b \<and> c + b < e \<and>
           (\<forall>c' b'. c0 \<le> c' \<and> c' < c \<and> c' + b' < e \<longrightarrow> \<not> check_neighbor_presence (bs ! c') b') \<and>
           (\<forall>b'. b' < b \<longrightarrow> \<not> check_neighbor_presence (bs ! c) b') \<and>
           r = (move_to_empty_bucket bs e c (c + b), c + b)"
  using assms
proof (induction bs e c0 rule: swap_closer_candidates.induct)
  case (1 bs e c0)
  from "1.prems" have guard: "c0 < e"
    by (auto simp: swap_closer_candidates.simps [of bs e c0] split: if_splits)
  show ?case
  proof (cases "swap_closer_scan bs e c0 (get_neighborhood_infos (bs ! c0)) c0")
    case (Some r')
    with guard "1.prems" have "r' = r"
      by (simp add: swap_closer_candidates.simps [of bs e c0])
    from swap_closer_scan_Some [OF Some]
    obtain b where b: "check_neighbor_presence (bs ! c0) b" "c0 + b < e"
      "\<forall>b'. b' < b \<longrightarrow> \<not> check_neighbor_presence (bs ! c0) b'"
      "r' = (move_to_empty_bucket bs e c0 (c0 + b), c0 + b)"
      by auto
    have "c0 \<le> c0 \<and> c0 < e \<and> check_neighbor_presence (bs ! c0) b \<and> c0 + b < e \<and>
           (\<forall>c' b'. c0 \<le> c' \<and> c' < c0 \<and> c' + b' < e \<longrightarrow> \<not> check_neighbor_presence (bs ! c') b') \<and>
           (\<forall>b'. b' < b \<longrightarrow> \<not> check_neighbor_presence (bs ! c0) b') \<and>
           r = (move_to_empty_bucket bs e c0 (c0 + b), c0 + b)"
      using b guard \<open>r' = r\<close> by auto
    then show ?thesis by blast
  next
    case None
    with guard "1.prems" have rec: "swap_closer_candidates bs e (c0 + 1) = Some r"
      by (simp add: swap_closer_candidates.simps [of bs e c0])
    from swap_closer_scan_None [OF None]
    have none: "\<forall>b. c0 + b < e \<longrightarrow> \<not> check_neighbor_presence (bs ! c0) b" by simp
    from "1.IH" [OF guard None rec]
    obtain c b where cb: "c0 + 1 \<le> c" "c < e" "check_neighbor_presence (bs ! c) b" "c + b < e"
      "\<forall>c' b'. c0 + 1 \<le> c' \<and> c' < c \<and> c' + b' < e \<longrightarrow> \<not> check_neighbor_presence (bs ! c') b'"
      "\<forall>b'. b' < b \<longrightarrow> \<not> check_neighbor_presence (bs ! c) b'"
      "r = (move_to_empty_bucket bs e c (c + b), c + b)"
      by blast
    have "\<not> check_neighbor_presence (bs ! c') b'" if "c0 \<le> c'" "c' < c" "c' + b' < e" for c' b'
    proof (cases "c' = c0")
      case True with none that show ?thesis by simp
    next
      case False
      with that have "c0 + 1 \<le> c'" by simp
      with cb(5) that show ?thesis by blast
    qed
    with cb have "c0 \<le> c \<and> c < e \<and> check_neighbor_presence (bs ! c) b \<and> c + b < e \<and>
           (\<forall>c' b'. c0 \<le> c' \<and> c' < c \<and> c' + b' < e \<longrightarrow> \<not> check_neighbor_presence (bs ! c') b') \<and>
           (\<forall>b'. b' < b \<longrightarrow> \<not> check_neighbor_presence (bs ! c) b') \<and>
           r = (move_to_empty_bucket bs e c (c + b), c + b)"
      by auto
    then show ?thesis by blast
  qed
qed

lemma swap_closer_candidates_None:
  assumes "swap_closer_candidates bs e c0 = None"
  shows "\<forall>c b. c0 \<le> c \<and> c + b < e \<longrightarrow> \<not> check_neighbor_presence (bs ! c) b"
  using assms
proof (induction bs e c0 rule: swap_closer_candidates.induct)
  case (1 bs e c0)
  show ?case
  proof (cases "c0 < e")
    case False
    then show ?thesis by auto
  next
    case True
    with "1.prems" have None: "swap_closer_scan bs e c0 (get_neighborhood_infos (bs ! c0)) c0 = None"
      and rec: "swap_closer_candidates bs e (c0 + 1) = None"
      by (auto simp: swap_closer_candidates.simps [of bs e c0] split: option.splits)
    from swap_closer_scan_None [OF None]
    have none: "\<forall>b. c0 + b < e \<longrightarrow> \<not> check_neighbor_presence (bs ! c0) b" by simp
    from "1.IH" [OF True None rec]
    have IH: "\<forall>c b. c0 + 1 \<le> c \<and> c + b < e \<longrightarrow> \<not> check_neighbor_presence (bs ! c) b" .
    show ?thesis
    proof (intro allI impI)
      fix c b assume cb: "c0 \<le> c \<and> c + b < e"
      show "\<not> check_neighbor_presence (bs ! c) b"
      proof (cases "c = c0")
        case True with none cb show ?thesis by simp
      next
        case False
        with cb have "c0 + 1 \<le> c" by simp
        with IH cb show ?thesis by blast
      qed
    qed
  qed
qed

subsection \<open>The displacement loop\<close>

lemma swap_empty_bucket_closer_inv:
  assumes cfg: "static_asserts cfg" and inv: "buckets_inv cfg bs"
    and e: "e < length bs" "is_empty (bs ! e)"
    and swap: "swap_empty_bucket_closer cfg bs e = Some (bs', e')"
  shows "buckets_inv cfg bs'" and "length bs' = length bs" and "is_empty (bs' ! e')"
    and "e' < e" and "e + 1 \<le> e' + NeighborhoodSize cfg"
    and "mset (bucket_elements bs') = mset (bucket_elements bs)"
    and "\<And>j. j < length bs \<Longrightarrow> has_overflow (bs' ! j) = has_overflow (bs ! j)"
    and "\<And>j. j < length bs \<Longrightarrow> j \<noteq> e' \<Longrightarrow> \<not> is_empty (bs ! j) \<Longrightarrow> \<not> is_empty (bs' ! j)"
proof -
  from swap have N: "NeighborhoodSize cfg \<le> e + 1"
    and cand: "swap_closer_candidates bs e (e + 1 - NeighborhoodSize cfg) = Some (bs', e')"
    by (auto simp: swap_empty_bucket_closer_def split: if_splits)
  from swap_closer_candidates_Some [OF cand]
  obtain c b where cb: "e + 1 - NeighborhoodSize cfg \<le> c" "c < e"
    "check_neighbor_presence (bs ! c) b" "c + b < e"
    "bs' = move_to_empty_bucket bs e c (c + b)" "e' = c + b"
    by auto
  from cb(1) N have near: "e < c + NeighborhoodSize cfg" by linarith
  note m = move_to_empty_bucket_buckets_inv [OF cfg inv e cb(4) near cb(3)]
  show "buckets_inv cfg bs'" using m(1) cb by simp
  show "length bs' = length bs" using m(3) cb by simp
  show "is_empty (bs' ! e')" using m(4) cb by simp
  show "e' < e" using cb by simp
  show "e + 1 \<le> e' + NeighborhoodSize cfg" using cb near by simp
  show "mset (bucket_elements bs') = mset (bucket_elements bs)" using m(2) cb by simp
  show "\<And>j. j < length bs \<Longrightarrow> has_overflow (bs' ! j) = has_overflow (bs ! j)"
    using m(5) cb by simp
  show "\<And>j. j < length bs \<Longrightarrow> j \<noteq> e' \<Longrightarrow> \<not> is_empty (bs ! j) \<Longrightarrow> \<not> is_empty (bs' ! j)"
    using m(6) cb by simp
qed

lemma closer_loop_inv:
  assumes cfg: "static_asserts cfg"
    and "buckets_inv cfg bs" and "e < length bs" and "is_empty (bs ! e)" and "i \<le> e"
    and "\<forall>j. i \<le> j \<and> j < e \<longrightarrow> \<not> is_empty (bs ! j)"
    and "closer_loop cfg bs i e = (bs', e', ok)"
  shows "buckets_inv cfg bs' \<and> length bs' = length bs \<and> is_empty (bs' ! e') \<and>
         i \<le> e' \<and> e' \<le> e \<and> (ok \<longleftrightarrow> e' < i + NeighborhoodSize cfg) \<and>
         (\<not> ok \<longrightarrow> swap_empty_bucket_closer cfg bs' e' = None) \<and>
         mset (bucket_elements bs') = mset (bucket_elements bs) \<and>
         (\<forall>j < length bs. has_overflow (bs' ! j) = has_overflow (bs ! j)) \<and>
         (\<forall>j. i \<le> j \<and> j < e' \<longrightarrow> \<not> is_empty (bs' ! j))"
  using assms
proof (induction cfg bs i e rule: closer_loop.induct)
  case (1 cfg' bs i e)
  show ?case
  proof (cases "i \<le> e \<and> e - i < NeighborhoodSize cfg'")
    case True
    with "1.prems" show ?thesis
      by (auto simp: closer_loop.simps [of cfg' bs i e])
  next
    case False
    show ?thesis
    proof (cases "swap_empty_bucket_closer cfg' bs e")
      case None
      with False "1.prems" show ?thesis
        by (auto simp: closer_loop.simps [of cfg' bs i e])
    next
      case (Some r)
      obtain bs1 e1 where r: "r = (bs1, e1)" by (cases r)
      from Some r False "1.prems" have rec: "closer_loop cfg' bs1 i e1 = (bs', e', ok)"
        by (simp add: closer_loop.simps [of cfg' bs i e])
      note sw = swap_empty_bucket_closer_inv [OF "1.prems"(1,2,3,4) Some [unfolded r]]
      from False "1.prems"(5) sw(5) have ie1: "i \<le> e1" by linarith
      have occ1: "\<forall>j. i \<le> j \<and> j < e1 \<longrightarrow> \<not> is_empty (bs1 ! j)"
        using sw(4,8) "1.prems"(3,6) by auto
      from sw(2,4) "1.prems"(3) have e1: "e1 < length bs1" by simp
      from "1.IH" [OF False Some r [symmetric] "1.prems"(1) sw(1) e1 sw(3) ie1 occ1 rec]
      show ?thesis using sw(2,4,6,7) by auto
    qed
  qed
qed

subsection \<open>An insertion attempt\<close>

lemma nth_list_update_if:
  "xs[i := x] ! j = (if i = j \<and> i < length xs then x else xs ! j)"
  by (cases "i < length xs") (auto simp: nth_list_update list_update_beyond)

lemma buckets_inv_cong:
  assumes inv: "buckets_inv cfg bs"
    and len: "length bs' = length bs"
    and emp: "\<And>j. j < length bs \<Longrightarrow> is_empty (bs' ! j) = is_empty (bs ! j)"
    and kvs: "\<And>j. j < length bs \<Longrightarrow> m_key_value (bs' ! j) = m_key_value (bs ! j)"
    and nbs: "\<And>j b. j < length bs \<Longrightarrow>
                check_neighbor_presence (bs' ! j) b = check_neighbor_presence (bs ! j) b"
  shows "buckets_inv cfg bs'"
proof -
  have home: "home_of cfg bs' = home_of cfg bs" by (rule home_of_cong_length [OF len])
  have key: "key_at bs' j = key_at bs j" if "j < length bs" for j
    using kvs [OF that] by (simp add: key_at_def get_key_value_def)
  from inv have "storage_consistent bs'"
    by (simp add: buckets_inv_def storage_consistent_def len emp kvs)
  moreover from inv have "neighborhood_consistent cfg bs'"
    unfolding buckets_inv_def neighborhood_consistent_def
    by (auto simp: len home nbs emp key)
  moreover from inv have "no_wraparound cfg bs'"
    unfolding buckets_inv_def no_wraparound_def
    by (auto simp: len home emp key)
  ultimately show ?thesis using inv
    by (simp add: buckets_inv_def nb_buckets_of_cong_length [OF len])
qed

lemma set_overflow_buckets:
  assumes inv: "buckets_inv cfg bs"
  shows "buckets_inv cfg (bs[i := set_overflow f (bs ! i)])"
    and "mset (bucket_elements (bs[i := set_overflow f (bs ! i)])) = mset (bucket_elements bs)"
proof -
  show "buckets_inv cfg (bs[i := set_overflow f (bs ! i)])"
    by (rule buckets_inv_cong [OF inv]) (auto simp: nth_list_update_if)
  show "mset (bucket_elements (bs[i := set_overflow f (bs ! i)])) = mset (bucket_elements bs)"
    by (rule mset_bucket_elements_cong) (auto simp: nth_list_update_if)
qed

lemma overflow_flaggedI:
  assumes fl: "overflow_flagged cfg s"
    and len: "length (m_buckets s') = length (m_buckets s)"
    and ov: "set (m_overflow_elements s') \<subseteq> set (m_overflow_elements s)"
    and flags: "\<And>j. j < length (m_buckets s) \<Longrightarrow> has_overflow (m_buckets s ! j) \<Longrightarrow>
                  has_overflow (m_buckets s' ! j)"
  shows "overflow_flagged cfg s'"
  unfolding overflow_flagged_def
proof
  fix kv assume "kv \<in> set (m_overflow_elements s')"
  with ov have "kv \<in> set (m_overflow_elements s)" by auto
  with fl have h: "home_of cfg (m_buckets s) (fst kv) < length (m_buckets s)"
    "has_overflow (m_buckets s ! home_of cfg (m_buckets s) (fst kv))"
    by (simp_all add: overflow_flagged_def)
  from flags [OF h] h(1)
  show "home_of cfg (m_buckets s') (fst kv) < length (m_buckets s') \<and>
      has_overflow (m_buckets s' ! home_of cfg (m_buckets s') (fst kv))"
    by (simp add: home_of_cong_length [OF len] len)
qed

lemma insert_attempt_inv:
  assumes cfg: "static_asserts cfg" and inv: "base_inv cfg s"
    and i: "i = home_of cfg (m_buckets s) (fst kv)"
  shows "case insert_attempt cfg kv i s of
           Inl err \<Rightarrow> True
         | Inr (Stored s' it) \<Rightarrow>
             base_inv cfg s' \<and> content s' = add_mset kv (content s) \<and>
             m_nb_elements s' = m_nb_elements s + 1 \<and>
             length (m_buckets s') = length (m_buckets s) \<and>
             m_max_load_factor s' = m_max_load_factor s \<and>
             m_load_threshold s' = m_load_threshold s \<and>
             dereferenceable s' it \<and> deref s' it = kv
         | Inr (Rehash_needed s2) \<Rightarrow>
             base_inv cfg s2 \<and> content s2 = content s \<and>
             m_nb_elements s2 = m_nb_elements s \<and>
             length (m_buckets s2) = length (m_buckets s) \<and>
             m_max_load_factor s2 = m_max_load_factor s \<and>
             m_load_threshold s2 = m_load_threshold s \<and>
             m_overflow_elements s2 = m_overflow_elements s"
proof -
  let ?bs = "m_buckets s"
  define e where "e = find_empty_bucket ?bs i"
  from inv have binv: "buckets_inv cfg ?bs" and fl: "overflow_flagged cfg s"
    and cnt: "size (content s) \<le> m_nb_elements s"
    by (simp_all add: base_inv_def)
  show ?thesis
  proof (cases "e < length ?bs")
    case False
    with inv show ?thesis
      by (simp add: insert_attempt_def Let_def e_def [symmetric])
  next
    case True
    note fe = find_empty_bucket_props [OF e_def [symmetric] True]
    from fe(1) True have ilen: "i < length ?bs" by simp
    obtain bs' e' ok where cl: "closer_loop cfg ?bs i e = (bs', e', ok)"
      by (cases "closer_loop cfg ?bs i e") auto
    from closer_loop_inv [OF cfg binv True fe(2) fe(1) _ cl] fe(3)
    have L: "buckets_inv cfg bs'" "length bs' = length ?bs" "is_empty (bs' ! e')" "i \<le> e'" "e' \<le> e"
      "ok \<longleftrightarrow> e' < i + NeighborhoodSize cfg"
      "mset (bucket_elements bs') = mset (bucket_elements ?bs)"
      "\<forall>j < length ?bs. has_overflow (bs' ! j) = has_overflow (?bs ! j)"
      by auto
    let ?s1 = "s\<lparr>m_buckets := bs'\<rparr>"
    have home1: "home_of cfg bs' = home_of cfg ?bs" by (rule home_of_cong_length [OF L(2)])
    have fl1: "overflow_flagged cfg ?s1"
      by (rule overflow_flaggedI [OF fl]) (use L in auto)
    have cont1: "content ?s1 = content s" by (simp add: content_def L)
    have inv1: "base_inv cfg ?s1"
      using L(1) fl1 cnt by (simp add: base_inv_def cont1)
    from True L have e'len: "e' < length bs'" by simp
    show ?thesis
    proof (cases ok)
      case True
      let ?s' = "insert_in_bucket kv e' i ?s1"
      have att: "insert_attempt cfg kv i s = Inr (Stored ?s' (bucket_iterator ?s' e'))"
        using \<open>e < length ?bs\<close> cl True by (simp add: insert_attempt_def Let_def e_def [symmetric])
      have i1: "i = home_of cfg (m_buckets ?s1) (fst kv)" using i by (simp add: home1)
      from True L have near: "e' < i + NeighborhoodSize cfg" by simp
      have e1: "e' < length (m_buckets ?s1)" "is_empty (m_buckets ?s1 ! e')"
        using e'len L by simp_all
      have b1: "buckets_inv cfg (m_buckets ?s1)" using L by simp
      note ib = insert_in_bucket_buckets_inv [OF cfg b1 e1 i1 L(4) near]
      note v = insert_in_bucket_views [OF e1(1) L(4), where kv = kv]
      have rest: "m_overflow_elements ?s' = m_overflow_elements s"
        "m_nb_elements ?s' = m_nb_elements s + 1"
        "m_max_load_factor ?s' = m_max_load_factor s" "m_load_threshold ?s' = m_load_threshold s"
        by (simp_all add: insert_in_bucket_def Let_def)
      have fl': "overflow_flagged cfg ?s'"
        by (rule overflow_flaggedI [OF fl1 v(1)]) (use v(4) rest in auto)
      have cont': "content ?s' = add_mset kv (content s)"
        using ib(2) cont1 by (simp add: content_def rest)
      have "base_inv cfg ?s'"
        using ib(1) fl' cnt cont' by (simp add: base_inv_def rest)
      moreover have "dereferenceable ?s' (bucket_iterator ?s' e')"
        using v(1) v(2) [OF e1(1)] e1(1)
        by (simp add: dereferenceable_def bucket_iterator_def)
      moreover have "deref ?s' (bucket_iterator ?s' e') = kv"
        using v(1) v(3) [OF e1(1)] e1(1)
        by (simp add: deref_def bucket_iterator_def get_key_value_def)
      ultimately show ?thesis
        using att cont' rest v(1) L(2) by simp
    next
      case False
      show ?thesis
      proof (cases "will_neighborhood_change_on_rehash cfg ?s1 i")
        case (Inl err)
        with \<open>e < length ?bs\<close> cl False have "insert_attempt cfg kv i s = Inl err"
          by (simp add: insert_attempt_def Let_def e_def [symmetric])
        then show ?thesis by simp
      next
        case (Inr change)
        show ?thesis
        proof (cases change)
          case True
          with Inr \<open>e < length ?bs\<close> cl False
          have "insert_attempt cfg kv i s = Inr (Rehash_needed ?s1)"
            by (simp add: insert_attempt_def Let_def e_def [symmetric])
          with inv1 cont1 L(2) show ?thesis by simp
        next
          case nochange: False
        let ?s' = "?s1\<lparr>m_overflow_elements := m_overflow_elements ?s1 @ [kv],
                       m_buckets := bs'[i := set_overflow True (bs' ! i)],
                       m_nb_elements := m_nb_elements ?s1 + 1\<rparr>"
        let ?it = "overflow_iterator ?s' (length (m_overflow_elements ?s') - 1)"
        have att: "insert_attempt cfg kv i s = Inr (Stored ?s' ?it)"
          using \<open>e < length ?bs\<close> cl False nochange Inr
          by (simp add: insert_attempt_def Let_def e_def [symmetric])
        note so = set_overflow_buckets [OF L(1), of i True]
        have len': "length (m_buckets ?s') = length ?bs" using L by simp
        have fl': "overflow_flagged cfg ?s'"
          unfolding overflow_flagged_def
        proof
          fix x assume x: "x \<in> set (m_overflow_elements ?s')"
          have hx: "home_of cfg (m_buckets ?s') (fst x) = home_of cfg ?bs (fst x)"
            by (simp add: home_of_def nb_buckets_of_def L(2))
          have at_i: "has_overflow (m_buckets ?s' ! i)" using ilen L(2) by simp
          have "home_of cfg ?bs (fst x) < length ?bs \<and>
              has_overflow (m_buckets ?s' ! home_of cfg ?bs (fst x))"
          proof (cases "x = kv")
            case True
            then have "home_of cfg ?bs (fst x) = i" using i by simp
            with at_i ilen show ?thesis by (simp only:)
          next
            case False
            with x have "x \<in> set (m_overflow_elements s)" by simp
            with fl have h: "home_of cfg ?bs (fst x) < length ?bs"
              "has_overflow (?bs ! home_of cfg ?bs (fst x))"
              by (simp_all add: overflow_flagged_def)
            with L(8) L(2) have "has_overflow (m_buckets ?s' ! home_of cfg ?bs (fst x))"
              by (simp add: nth_list_update_if)
            with h(1) show ?thesis by simp
          qed
          then show "home_of cfg (m_buckets ?s') (fst x) < length (m_buckets ?s') \<and>
              has_overflow (m_buckets ?s' ! home_of cfg (m_buckets ?s') (fst x))"
            unfolding hx using len' by simp
        qed
        have cont': "content ?s' = add_mset kv (content s)"
          using so(2) L(7) by (simp add: content_def)
        have "base_inv cfg ?s'"
          using so(1) fl' cnt cont' by (simp add: base_inv_def)
        moreover have "dereferenceable ?s' ?it" "deref ?s' ?it = kv"
          by (simp_all add: dereferenceable_def overflow_iterator_def deref_def)
        ultimately show ?thesis
          using att cont' L(2) by simp
        qed
      qed
    qed
  qed
qed

subsection \<open>Construction and the rehash loop\<close>

lemma round_up_loop_props:
  assumes "round_up_loop pw v = Some y"
  shows "pw < 2 ^ 64 \<and> (pw = 0 \<or> (\<exists>k. pw = 2 ^ k)) \<longrightarrow>
         v \<le> y \<and> y < 2 ^ 64 \<and> (y = 0 \<or> (\<exists>k. y = 2 ^ k))"
proof -
  let ?P = "\<lambda>(pw :: nat) (v :: nat) (y :: nat).
      pw < 2 ^ 64 \<and> (pw = 0 \<or> (\<exists>k. pw = 2 ^ k)) \<longrightarrow>
      v \<le> y \<and> y < 2 ^ 64 \<and> (y = 0 \<or> (\<exists>k. y = 2 ^ k))"
  have "?P pw v y"
  proof (rule round_up_loop.raw_induct [OF _ assms, where P = ?P])
    fix f :: "nat \<Rightarrow> nat \<Rightarrow> nat option" and pw v y
    assume IH: "\<And>pw v y. f pw v = Some y \<Longrightarrow> ?P pw v y"
      and step: "(if pw < v then f (2 * pw mod 2 ^ 64) v else Some pw) = Some y"
    show "?P pw v y"
    proof (intro impI)
      assume pw: "pw < 2 ^ 64 \<and> (pw = 0 \<or> (\<exists>k. pw = 2 ^ k))"
      show "v \<le> y \<and> y < 2 ^ 64 \<and> (y = 0 \<or> (\<exists>k. y = 2 ^ k))"
      proof (cases "pw < v")
        case False
        with step pw show ?thesis by simp
      next
        case True
        with step have rec: "f ((2 * pw) mod 2 ^ 64) v = Some y" by simp
        have z: "(2 * pw) mod 2 ^ 64 = 0 \<or> (\<exists>k. (2 * pw) mod 2 ^ 64 = 2 ^ k)"
        proof (cases "pw = 0")
          case True
          then show ?thesis by simp
        next
          case False
          with pw obtain k where k: "pw = 2 ^ k" by blast
          with pw have "k < 64" using power_less_imp_less_exp [of "2 :: nat" k 64] by simp
          show ?thesis
          proof (cases "Suc k < 64")
            case True
            then have "(2 :: nat) ^ Suc k < 2 ^ 64" by (simp only: power_strict_increasing_iff)
            then have "(2 * pw) mod 2 ^ 64 = 2 ^ Suc k" by (simp add: k)
            then show ?thesis by blast
          next
            case False
            with \<open>k < 64\<close> have "k = 63" by simp
            then have "(2 * pw) mod 2 ^ 64 = 0" by (simp add: k)
            then show ?thesis by simp
          qed
        qed
        have lt: "(2 * pw) mod 2 ^ 64 < (2 :: nat) ^ 64" by simp
        show ?thesis by (rule mp [OF IH [OF rec] conjI [OF lt z]])
      qed
    qed
  qed
  then show ?thesis .
qed

lemma round_up_to_power_of_two_props:
  assumes "round_up_to_power_of_two v = Some p"
  shows "\<exists>k. p = 2 ^ k" and "v \<le> p" and "p \<le> 2 ^ 63"
proof -
  have "\<exists>k. (1 :: nat) = 2 ^ k" by (rule exI [of _ 0]) simp
  with round_up_loop_props [OF assms [unfolded round_up_to_power_of_two_def]]
  have p: "v \<le> p" "p < 2 ^ 64" "p = 0 \<or> (\<exists>k. p = 2 ^ k)"
    by simp_all
  show "v \<le> p" by (rule p(1))
  have "p \<noteq> 0"
  proof
    assume "p = 0"
    with p(1) have "v = 0" by simp
    then have "round_up_to_power_of_two v = Some 1"
      by (simp add: round_up_to_power_of_two_def round_up_loop.simps [of "Suc 0" 0])
    with assms \<open>p = 0\<close> show False by simp
  qed
  with p(3) obtain k where k: "p = 2 ^ k" by blast
  then show "\<exists>k. p = 2 ^ k" by blast
  from p(2) k have "k < 64" using power_less_imp_less_exp [of "2 :: nat" k 64] by simp
  then have "k \<le> 63" by simp
  then have "(2 :: nat) ^ k \<le> 2 ^ 63" by (simp only: power_increasing_iff semiring_norm)
  with k show "p \<le> 2 ^ 63" by simp
qed

lemma bucket_elements_replicate_empty [simp]:
  "bucket_elements (replicate m empty_bucket) = []"
  by (simp add: bucket_elements_def)

lemma buckets_inv_replicate_pow2:
  assumes N: "0 < NeighborhoodSize cfg" "NeighborhoodSize cfg \<le> 62"
    and p: "p = 2 ^ k" "p \<le> 2 ^ 63"
  shows "nb_buckets_of cfg (replicate ((p + NeighborhoodSize cfg - 1) mod 2 ^ 64) empty_bucket) = p"
proof -
  from N p(2) have "p + NeighborhoodSize cfg - 1 < 2 ^ 64" by simp
  then have "(p + NeighborhoodSize cfg - 1) mod 2 ^ 64 = p + NeighborhoodSize cfg - 1" by simp
  moreover from N have "p + NeighborhoodSize cfg - 1 + 2 ^ 64 - NeighborhoodSize cfg + 1 = p + 2 ^ 64"
    by simp
  moreover from p(2) have "p < 2 ^ 64" by simp
  ultimately show ?thesis by (simp add: nb_buckets_of_def)
qed

lemma hopscotch_map_init_props:
  fixes t :: "('a, 'b) hopscotch_map"
  assumes cfg: "static_asserts cfg" and init: "hopscotch_map_init cfg n ml = Inr t"
  shows "base_inv cfg t" and "content t = {#}" and "m_max_load_factor t = ml"
    and "m_overflow_elements t = []" and "m_nb_elements t = 0"
proof -
  from cfg have N: "0 < NeighborhoodSize cfg" "NeighborhoodSize cfg \<le> 62"
    using static_asserts_N by blast+
  from init obtain nb where nb: "(if USE_POWER_OF_TWO_MOD cfg then round_up_to_power_of_two n
      else Some n) = Some nb"
    and t: "t = set_max_load_factor cfg ml
        \<lparr>m_buckets = replicate ((nb + NeighborhoodSize cfg - 1) mod 2 ^ 64) empty_bucket,
         m_overflow_elements = [], m_nb_elements = 0, m_max_load_factor = ml,
         m_load_threshold = 0\<rparr>"
    by (auto simp: hopscotch_map_init_def Let_def split: option.splits if_splits)
  let ?bs = "replicate ((nb + NeighborhoodSize cfg - 1) mod 2 ^ 64)
      (empty_bucket :: ('a, 'b) hopscotch_bucket)"
  have bs: "m_buckets t = ?bs" by (simp add: t set_max_load_factor_def)
  show ov: "m_overflow_elements t = []" and "m_nb_elements t = 0" and "m_max_load_factor t = ml"
    by (simp_all add: t set_max_load_factor_def)
  have "\<exists>k. nb_buckets_of cfg ?bs = 2 ^ k" if "USE_POWER_OF_TWO_MOD cfg"
  proof -
    from that nb have r: "round_up_to_power_of_two n = Some nb" by simp
    from round_up_to_power_of_two_props(1,3) [OF r] obtain k where "nb = 2 ^ k" "nb \<le> 2 ^ 63"
      by blast
    from buckets_inv_replicate_pow2 [OF N this] this(1) show ?thesis by blast
  qed
  moreover have "storage_consistent ?bs" by (simp add: storage_consistent_def)
  moreover have "neighborhood_consistent cfg ?bs" by (simp add: neighborhood_consistent_def)
  moreover have "no_wraparound cfg ?bs" by (simp add: no_wraparound_def)
  ultimately have "buckets_inv cfg ?bs" unfolding buckets_inv_def by blast
  then show "base_inv cfg t"
    by (simp add: base_inv_def bs ov overflow_flagged_def content_def)
  show "content t = {#}"
    by (simp add: content_def bs ov)
qed

text \<open>What the invariant proofs need of an \<open>insert_internal\<close> passed to \<open>rehash_internal\<close>.\<close>

lemma rehash_insert_loop_inv:
  assumes ins: "\<And>kv i s s' it b. base_inv cfg s \<Longrightarrow> i = home_of cfg (m_buckets s) (fst kv) \<Longrightarrow>
        ins kv i s = Inr (s', it, b) \<Longrightarrow>
        base_inv cfg s' \<and> content s' \<subseteq># add_mset kv (content s) \<and>
        m_max_load_factor s' = m_max_load_factor s"
    and "base_inv cfg tmp" and "rehash_insert_loop ins cfg kvs tmp = Inr tmp'"
  shows "base_inv cfg tmp' \<and> content tmp' \<subseteq># content tmp + mset kvs \<and>
         m_max_load_factor tmp' = m_max_load_factor tmp"
  using assms(2,3)
proof (induction kvs arbitrary: tmp)
  case Nil
  then show ?case by simp
next
  case (Cons kv kvs)
  from Cons.prems(2) obtain i where i: "bucket_for_hash cfg tmp (m_hash cfg (fst kv)) = Inr i"
    by (auto split: sum.splits)
  with Cons.prems(2) obtain r where r: "ins kv i tmp = Inr r"
    by (auto split: sum.splits)
  obtain tmp1 it b where r': "r = (tmp1, it, b)" by (cases r)
  from Cons.prems(2) i r r' have rest: "rehash_insert_loop ins cfg kvs tmp1 = Inr tmp'"
    by simp
  from ins [OF Cons.prems(1) bucket_for_hash_home_of [OF i] r [unfolded r']]
  have step: "base_inv cfg tmp1" "content tmp1 \<subseteq># add_mset kv (content tmp)"
    "m_max_load_factor tmp1 = m_max_load_factor tmp" by simp_all
  from Cons.IH [OF step(1) rest]
  have IH: "base_inv cfg tmp'" "content tmp' \<subseteq># content tmp1 + mset kvs"
    "m_max_load_factor tmp' = m_max_load_factor tmp1" by simp_all
  from step(2) have "content tmp1 + mset kvs \<subseteq># content tmp + mset (kv # kvs)"
    by (simp add: subset_mset.add_mono)
  with IH step(3) show ?case
    by (auto intro: subset_mset.order_trans)
qed

lemma home_of_list_update [simp]: "home_of cfg (bs[i := x]) = home_of cfg bs"
  by (simp add: home_of_def nb_buckets_of_def fun_eq_iff)

lemma rehash_overflow_flags_Inr:
  "rehash_overflow_flags cfg kvs t = Inr t' \<Longrightarrow>
   length (m_buckets t') = length (m_buckets t) \<and>
   m_overflow_elements t' = m_overflow_elements t \<and>
   m_nb_elements t' = m_nb_elements t \<and>
   m_max_load_factor t' = m_max_load_factor t \<and>
   m_load_threshold t' = m_load_threshold t \<and>
   (\<forall>j < length (m_buckets t).
      is_empty (m_buckets t' ! j) = is_empty (m_buckets t ! j) \<and>
      m_key_value (m_buckets t' ! j) = m_key_value (m_buckets t ! j) \<and>
      (\<forall>b. check_neighbor_presence (m_buckets t' ! j) b =
            check_neighbor_presence (m_buckets t ! j) b) \<and>
      (has_overflow (m_buckets t' ! j) \<longleftrightarrow>
         has_overflow (m_buckets t ! j) \<or>
         (\<exists>kv \<in> set kvs. home_of cfg (m_buckets t) (fst kv) = j))) \<and>
   (\<forall>kv \<in> set kvs. home_of cfg (m_buckets t) (fst kv) < length (m_buckets t))"
proof (induction kvs arbitrary: t)
  case Nil
  then show ?case by simp
next
  case (Cons kv kvs)
  from Cons.prems obtain i where hb: "home_bucket cfg t (fst kv) = Inr i"
    by (auto split: sum.splits)
  note i = home_bucket_Inr [OF hb]
  let ?t1 = "t\<lparr>m_buckets := (m_buckets t)[i := set_overflow True (m_buckets t ! i)]\<rparr>"
  from Cons.prems hb have "rehash_overflow_flags cfg kvs ?t1 = Inr t'" by simp
  from Cons.IH [OF this] i show ?case
    by (auto simp: nth_list_update_if)
qed

subsection \<open>Rehash\<close>

lemma rehash_internal_with_inv:
  fixes s :: "('k, 'v) hopscotch_map"
  assumes cfg: "static_asserts cfg"
    and ins: "\<And>kv i (s :: ('k, 'v) hopscotch_map) s' it b.
        base_inv cfg s \<Longrightarrow> i = home_of cfg (m_buckets s) (fst kv) \<Longrightarrow>
        ins kv i s = Inr (s', it, b) \<Longrightarrow>
        base_inv cfg s' \<and> content s' \<subseteq># add_mset kv (content s) \<and>
        m_max_load_factor s' = m_max_load_factor s"
    and rehash: "rehash_internal_with ins cfg n s = Inr s'"
  shows "base_inv cfg s' \<and> content s' \<subseteq># content s \<and>
         m_max_load_factor s' = m_max_load_factor s"
proof -
  from rehash obtain tmp :: "('k, 'v) hopscotch_map"
    where tmp: "hopscotch_map_init cfg n (m_max_load_factor s) = Inr tmp"
    by (auto simp: rehash_internal_with_def split: sum.splits)
  have init: "base_inv cfg tmp" "content tmp = {#}" "m_max_load_factor tmp = m_max_load_factor s"
    by (rule hopscotch_map_init_props [OF cfg tmp])+
  show ?thesis
  proof (cases "nothrow_move_constructible cfg")
    case False
    with rehash have "rehash_insert_loop ins cfg
        (bucket_elements (m_buckets s) @ m_overflow_elements s) tmp = Inr s'"
      by (simp add: rehash_internal_with_def tmp)
    from rehash_insert_loop_inv [OF ins init(1) this] init(2,3) show ?thesis
      by (simp add: content_def)
  next
    case True
    with rehash obtain tmp1 where loop: "rehash_insert_loop ins cfg (bucket_elements (m_buckets s)) tmp = Inr tmp1"
      and s': "(if m_overflow_elements s \<noteq> [] then
          rehash_overflow_flags cfg (m_overflow_elements s)
            (tmp1\<lparr>m_overflow_elements := m_overflow_elements s,
                   m_nb_elements := m_nb_elements tmp1 + length (m_overflow_elements s)\<rparr>)
          else Inr tmp1) = Inr s'"
      by (auto simp: rehash_internal_with_def tmp split: sum.splits if_splits)
    from rehash_insert_loop_inv [OF ins init(1) loop] init(2,3)
    have t1: "base_inv cfg tmp1" "content tmp1 \<subseteq># mset (bucket_elements (m_buckets s))"
      "m_max_load_factor tmp1 = m_max_load_factor s" by simp_all
    show ?thesis
    proof (cases "m_overflow_elements s = []")
      case True
      with s' t1 show ?thesis by (auto simp: content_def)
    next
      case False
      let ?ov = "m_overflow_elements s"
      let ?t2 = "tmp1\<lparr>m_overflow_elements := ?ov, m_nb_elements := m_nb_elements tmp1 + length ?ov\<rparr>"
      from False s' have s'eq: "rehash_overflow_flags cfg ?ov ?t2 = Inr s'" by simp
      note fl = rehash_overflow_flags_Inr [OF s'eq]
      from t1(1) have b1: "buckets_inv cfg (m_buckets tmp1)"
        and c1: "size (content tmp1) \<le> m_nb_elements tmp1"
        by (simp_all add: base_inv_def)
      have lenb: "length (m_buckets s') = length (m_buckets tmp1)"
        using fl by simp
      have b': "buckets_inv cfg (m_buckets s')"
        by (rule buckets_inv_cong [OF b1 lenb]) (use fl in simp_all)
      have be: "mset (bucket_elements (m_buckets s')) = mset (bucket_elements (m_buckets tmp1))"
        by (rule mset_bucket_elements_cong [OF lenb]) (use fl in simp_all)
      have ov': "m_overflow_elements s' = ?ov" using fl by simp
      have fl': "overflow_flagged cfg s'"
        unfolding overflow_flagged_def
      proof
        fix kv assume kv: "kv \<in> set (m_overflow_elements s')"
        have h: "home_of cfg (m_buckets s') (fst kv) = home_of cfg (m_buckets tmp1) (fst kv)"
          by (simp add: home_of_cong_length [OF lenb])
        from kv ov' fl have hl: "home_of cfg (m_buckets tmp1) (fst kv) < length (m_buckets tmp1)"
          by simp
        with fl kv ov'
        have "has_overflow (m_buckets s' ! home_of cfg (m_buckets tmp1) (fst kv))"
          by auto
        with hl lenb
        show "home_of cfg (m_buckets s') (fst kv) < length (m_buckets s') \<and>
            has_overflow (m_buckets s' ! home_of cfg (m_buckets s') (fst kv))"
          unfolding h by simp
      qed
      have "mset (bucket_elements (m_buckets tmp1)) \<subseteq># content tmp1"
        by (simp add: content_def)
      from this t1(2) have sub: "mset (bucket_elements (m_buckets tmp1)) \<subseteq># mset (bucket_elements (m_buckets s))"
        by (rule subset_mset.order_trans)
      have cont': "content s' = mset (bucket_elements (m_buckets tmp1)) + mset ?ov"
        by (simp add: content_def be ov')
      have "size (mset (bucket_elements (m_buckets tmp1))) \<le> size (content tmp1)"
        by (simp add: content_def)
      moreover have "m_nb_elements s' = m_nb_elements tmp1 + length ?ov"
        using fl by simp
      moreover have "size (content s') = size (mset (bucket_elements (m_buckets tmp1))) + length ?ov"
        by (simp add: cont')
      ultimately have "size (content s') \<le> m_nb_elements s'"
        using c1 by linarith
      moreover have "content s' \<subseteq># content s"
        unfolding cont' using sub by (simp add: content_def)
      moreover have "m_max_load_factor s' = m_max_load_factor s"
        using t1(3) fl by simp
      ultimately show ?thesis
        using b' fl' by (simp add: base_inv_def)
    qed
  qed
qed

subsection \<open>Insertion with rehash\<close>

lemma insert_internal_inv:
  fixes s :: "('k, 'v) hopscotch_map"
  assumes cfg: "static_asserts cfg"
  shows "base_inv cfg s \<Longrightarrow> i = home_of cfg (m_buckets s) (fst kv) \<Longrightarrow>
         insert_internal fuel cfg kv i s = Inr (s', it, b) \<Longrightarrow>
         base_inv cfg s' \<and> content s' \<subseteq># add_mset kv (content s) \<and>
         m_max_load_factor s' = m_max_load_factor s \<and>
         kv \<in># content s' \<and> b \<and> dereferenceable s' it \<and> deref s' it = kv"
proof (induction fuel arbitrary: s i s' it b kv)
  case 0
  then show ?case by simp
next
  case (Suc fuel)
  have rehash: "base_inv cfg r \<and> content r \<subseteq># content t \<and>
      m_max_load_factor r = m_max_load_factor t"
    if "rehash_internal_with (insert_internal fuel cfg) cfg n t = Inr r"
    for t r :: "('k, 'v) hopscotch_map" and n
  proof (rule rehash_internal_with_inv [OF cfg _ that])
    fix x j and u u' :: "('k, 'v) hopscotch_map" and it' b'
    assume "base_inv cfg u" "j = home_of cfg (m_buckets u) (fst x)"
      "insert_internal fuel cfg x j u = Inr (u', it', b')"
    from Suc.IH [OF this]
    show "base_inv cfg u' \<and> content u' \<subseteq># add_mset x (content u) \<and>
        m_max_load_factor u' = m_max_load_factor u" by simp
  qed
  let ?pre = "if m_nb_elements s + 1 > m_load_threshold s then
      (case rehash_internal_with (insert_internal fuel cfg) cfg (get_expand_size cfg s) s of
         Inl e \<Rightarrow> Inl e
       | Inr s' \<Rightarrow>
           (case bucket_for_hash cfg s' (m_hash cfg (fst kv)) of
              Inl e \<Rightarrow> Inl e
            | Inr ibucket_for_hash' \<Rightarrow> Inr (s', ibucket_for_hash')))
    else Inr (s, i)"
  from Suc.prems(3) obtain s1 i1 where pre: "?pre = Inr (s1, i1)"
    by (auto split: sum.splits)
  have "base_inv cfg s1 \<and> content s1 \<subseteq># content s \<and>
      m_max_load_factor s1 = m_max_load_factor s \<and> i1 = home_of cfg (m_buckets s1) (fst kv)"
  proof (cases "m_nb_elements s + 1 > m_load_threshold s")
    case True
    with pre obtain r where r: "rehash_internal_with (insert_internal fuel cfg) cfg (get_expand_size cfg s) s = Inr r"
      and eq: "s1 = r" "bucket_for_hash cfg r (m_hash cfg (fst kv)) = Inr i1"
      by (auto split: sum.splits)
    from rehash [OF r] eq(1) bucket_for_hash_home_of [OF eq(2)] show ?thesis
      by simp
  next
    case False
    with pre Suc.prems(1,2) show ?thesis by auto
  qed
  then have s1: "base_inv cfg s1" "content s1 \<subseteq># content s"
    "m_max_load_factor s1 = m_max_load_factor s" "i1 = home_of cfg (m_buckets s1) (fst kv)"
    by simp_all
  note att = insert_attempt_inv [OF cfg s1(1) s1(4)]
  from Suc.prems(3) pre obtain a where a: "insert_attempt cfg kv i1 s1 = Inr a"
    by (auto split: sum.splits)
  show ?case
  proof (cases a)
    case (Stored t it')
    with Suc.prems(3) pre a have res: "s' = t" "it = it'" "b"
      by (simp_all split: sum.splits)
    from att a Stored have t: "base_inv cfg t" "content t = add_mset kv (content s1)"
      "m_max_load_factor t = m_max_load_factor s1" "dereferenceable t it'" "deref t it' = kv"
      by simp_all
    from s1(2) have "add_mset kv (content s1) \<subseteq># add_mset kv (content s)" by simp
    with t res s1(3) show ?thesis by simp
  next
    case (Rehash_needed s2)
    with Suc.prems(3) pre a obtain s3 i3 where
      r3: "rehash_internal_with (insert_internal fuel cfg) cfg (get_expand_size cfg s2) s2 = Inr s3"
      and i3: "bucket_for_hash cfg s3 (m_hash cfg (fst kv)) = Inr i3"
      and rec: "insert_internal fuel cfg kv i3 s3 = Inr (s', it, b)"
      by (auto split: sum.splits)
    from att a Rehash_needed have s2: "base_inv cfg s2" "content s2 = content s1"
      "m_max_load_factor s2 = m_max_load_factor s1" by simp_all
    from rehash [OF r3] have s3: "base_inv cfg s3" "content s3 \<subseteq># content s2"
      "m_max_load_factor s3 = m_max_load_factor s2" by simp_all
    from Suc.IH [OF s3(1) bucket_for_hash_home_of [OF i3] rec]
    have fin: "base_inv cfg s'" "content s' \<subseteq># add_mset kv (content s3)"
      "m_max_load_factor s' = m_max_load_factor s3" "kv \<in># content s'" "b"
      "dereferenceable s' it" "deref s' it = kv"
      by simp_all
    have "content s3 \<subseteq># content s"
      using s3(2) s2(2) s1(2) by (auto intro: subset_mset.order_trans)
    then have "add_mset kv (content s3) \<subseteq># add_mset kv (content s)" by simp
    with fin(2) have "content s' \<subseteq># add_mset kv (content s)"
      by (rule subset_mset.order_trans)
    with fin s3(3) s2(3) s1(3) show ?thesis by simp
  qed
qed

lemma rehash_internal_inv:
  assumes "static_asserts cfg" and "rehash_internal fuel cfg n s = Inr s'"
  shows "base_inv cfg s'" and "content s' \<subseteq># content s"
    and "m_max_load_factor s' = m_max_load_factor s"
proof -
  have "base_inv cfg s' \<and> content s' \<subseteq># content s \<and> m_max_load_factor s' = m_max_load_factor s"
  proof (rule rehash_internal_with_inv [OF assms(1) _ assms(2) [unfolded rehash_internal_def]])
    fix kv i and t t' :: "('a, 'b) hopscotch_map" and it b
    assume "base_inv cfg t" "i = home_of cfg (m_buckets t) (fst kv)"
      "insert_internal fuel cfg kv i t = Inr (t', it, b)"
    from insert_internal_inv [OF assms(1) this]
    show "base_inv cfg t' \<and> content t' \<subseteq># add_mset kv (content t) \<and>
        m_max_load_factor t' = m_max_load_factor t" by simp
  qed
  then show "base_inv cfg s'" and "content s' \<subseteq># content s"
    and "m_max_load_factor s' = m_max_load_factor s" by simp_all
qed

subsection \<open>Lookup in the neighborhood\<close>

lemma find_in_buckets_loop_char:
  assumes "\<forall>b. bit w b \<longrightarrow> j + b < length bs"
  shows "(\<exists>b. find_in_buckets_loop cfg bs key w j = j + b \<and> bit w b \<and>
              m_key_equal cfg (key_at bs (j + b)) key \<and>
              (\<forall>b' < b. \<not> (bit w b' \<and> m_key_equal cfg (key_at bs (j + b')) key))) \<or>
         (find_in_buckets_loop cfg bs key w j = length bs \<and>
          (\<forall>b. bit w b \<longrightarrow> \<not> m_key_equal cfg (key_at bs (j + b)) key))"
  using assms
proof (induction cfg bs key w j rule: find_in_buckets_loop.induct)
  case (1 cfg bs key w j)
  show ?case
  proof (cases "w = 0")
    case True
    then show ?thesis
      by (subst find_in_buckets_loop.simps) simp
  next
    case False
    show ?thesis
    proof (cases "bit w 0 \<and> m_key_equal cfg (key_at bs j) key")
      case True
      with False have "find_in_buckets_loop cfg bs key w j = j + 0"
        by (auto simp: find_in_buckets_loop.simps [of cfg bs key w j] word_and_1_eq_1_iff key_at_def)
      with True show ?thesis by (intro disjI1 exI [of _ 0]) simp
    next
      case no: False
      with False have step: "find_in_buckets_loop cfg bs key w j =
          find_in_buckets_loop cfg bs key (drop_bit 1 w) (j + 1)"
        by (auto simp: find_in_buckets_loop.simps [of cfg bs key w j] word_and_1_eq_1_iff key_at_def)
      have bit: "bit (drop_bit 1 w) b = bit w (Suc b)" "bit (drop_bit (Suc 0) w) b = bit w (Suc b)" for b
        by (simp_all add: bit_drop_bit_eq)
      have "\<forall>b. bit (drop_bit 1 w) b \<longrightarrow> j + 1 + b < length bs"
      proof (intro allI impI)
        fix b assume "bit (drop_bit 1 w) b"
        then have "bit w (Suc b)" by (simp add: bit_drop_bit_eq)
        with "1.prems" have "j + Suc b < length bs" by blast
        then show "j + 1 + b < length bs" by simp
      qed
      from "1.IH" [OF False _ this] no
      consider (found) b where
          "find_in_buckets_loop cfg bs key (drop_bit 1 w) (j + 1) = j + 1 + b"
          "bit w (Suc b)" "m_key_equal cfg (key_at bs (j + 1 + b)) key"
          "\<forall>b' < b. \<not> (bit w (Suc b') \<and> m_key_equal cfg (key_at bs (j + 1 + b')) key)"
        | (none) "find_in_buckets_loop cfg bs key (drop_bit 1 w) (j + 1) = length bs"
          "\<forall>b. bit w (Suc b) \<longrightarrow> \<not> m_key_equal cfg (key_at bs (j + 1 + b)) key"
        by (auto simp: bit word_and_1_eq_1_iff key_at_def)
      then show ?thesis
      proof cases
        case found
        have "\<not> (bit w b' \<and> m_key_equal cfg (key_at bs (j + b')) key)" if "b' < Suc b" for b'
        proof (cases b')
          case 0
          with no show ?thesis by simp
        next
          case (Suc b'')
          with that found(4) show ?thesis by auto
        qed
        with found step show ?thesis
          by (intro disjI1 exI [of _ "Suc b"]) simp
      next
        case none
        have "\<not> m_key_equal cfg (key_at bs (j + b)) key" if "bit w b" for b
        proof (cases b)
          case 0
          with no that show ?thesis by simp
        next
          case (Suc b'')
          with that none(2) show ?thesis by auto
        qed
        with none step show ?thesis by simp
      qed
    qed
  qed
qed

lemma find_in_buckets_char:
  assumes "buckets_inv cfg bs" and "i < length bs"
  shows "(\<exists>b. find_in_buckets cfg bs key i = i + b \<and> i + b < length bs \<and>
              check_neighbor_presence (bs ! i) b \<and>
              m_key_equal cfg (key_at bs (i + b)) key \<and>
              (\<forall>b' < b. \<not> (check_neighbor_presence (bs ! i) b' \<and>
                            m_key_equal cfg (key_at bs (i + b')) key))) \<or>
         (find_in_buckets cfg bs key i = length bs \<and>
          (\<forall>b. check_neighbor_presence (bs ! i) b \<longrightarrow> \<not> m_key_equal cfg (key_at bs (i + b)) key))"
proof -
  have "\<forall>b. bit (get_neighborhood_infos (bs ! i)) b \<longrightarrow> i + b < length bs"
    using neighborhood_consistentD [OF assms] by (simp add: bit_get_neighborhood_infos)
  from find_in_buckets_loop_char [OF this, of cfg key]
  show ?thesis
    unfolding find_in_buckets_def bit_get_neighborhood_infos
    using neighborhood_consistentD [OF assms] by blast
qed

subsection \<open>Erase and clear\<close>

lemma find_if_le: "find_if P xs \<le> length xs"
  by (induction xs) simp_all

lemma find_if_eq_length: "find_if P xs = length xs \<longleftrightarrow> (\<forall>x \<in> set xs. \<not> P x)"
  using find_if_le [of P] by (induction xs) (auto simp: Suc_le_eq)

lemma find_if_nth:
  "find_if P xs < length xs \<Longrightarrow> P (xs ! find_if P xs) \<and> (\<forall>j < find_if P xs. \<not> P (xs ! j))"
  by (induction xs) (auto simp: nth_Cons split: nat.splits if_splits)

lemma mset_list_erase:
  "pos < length xs \<Longrightarrow> add_mset (xs ! pos) (mset (list_erase xs pos)) = mset xs"
  using id_take_nth_drop [of pos xs]
  by (simp add: list_erase_def) (metis mset.simps(2) mset_append union_mset_add_mset_right)

lemma set_list_erase: "set (list_erase xs pos) \<subseteq> set xs"
  by (auto simp: list_erase_def dest: in_set_takeD in_set_dropD)

lemma erase_from_bucket_inv:
  assumes cfg: "static_asserts cfg" and inv: "base_inv cfg s"
    and t: "t < length (m_buckets s)" "\<not> is_empty (m_buckets s ! t)"
    and i: "i = home_of cfg (m_buckets s) (key_at (m_buckets s) t)"
  shows "base_inv cfg (erase_from_bucket t i s)"
    and "add_mset (get_key_value (m_buckets s ! t)) (content (erase_from_bucket t i s)) = content s"
    and "m_nb_elements (erase_from_bucket t i s) = m_nb_elements s - 1"
    and "m_max_load_factor (erase_from_bucket t i s) = m_max_load_factor s"
    and "length (m_buckets (erase_from_bucket t i s)) = length (m_buckets s)"
    and "m_overflow_elements (erase_from_bucket t i s) = m_overflow_elements s"
proof -
  let ?s = "erase_from_bucket t i s"
  from inv have binv: "buckets_inv cfg (m_buckets s)" and fl: "overflow_flagged cfg s"
    and sz: "size (content s) \<le> m_nb_elements s"
    by (simp_all add: base_inv_def)
  from no_wraparoundD [OF binv t] i have it: "i \<le> t" by simp
  note views = erase_from_bucket_views [OF t(1) it]
  note b = erase_from_bucket_buckets_inv [OF cfg binv t i]
  show ov: "m_overflow_elements ?s = m_overflow_elements s"
    and n: "m_nb_elements ?s = m_nb_elements s - 1"
    and "m_max_load_factor ?s = m_max_load_factor s"
    by (simp_all add: erase_from_bucket_def Let_def)
  show len: "length (m_buckets ?s) = length (m_buckets s)" by (rule views(1))
  show cont: "add_mset (get_key_value (m_buckets s ! t)) (content ?s) = content s"
    using b(2) by (simp add: content_def ov)
  have "overflow_flagged cfg ?s"
    by (rule overflow_flaggedI [OF fl len]) (simp_all add: ov views(4))
  moreover have "size (content ?s) \<le> m_nb_elements ?s"
  proof -
    have "size (content s) = Suc (size (content ?s))"
      unfolding cont [symmetric] by simp
    with sz n show ?thesis by simp
  qed
  ultimately show "base_inv cfg ?s" using b(1) by (simp add: base_inv_def)
qed

lemma bucket_for_hash_defined:
  assumes "bucket_for_hash cfg s h = Inr i" and "length (m_buckets s') = length (m_buckets s)"
  shows "bucket_for_hash cfg s' (m_hash cfg key) = Inr (home_of cfg (m_buckets s') key)"
proof -
  from assms(2) have bc: "bucket_count cfg s' = bucket_count cfg s" by (simp add: bucket_count_def)
  have "\<not> (\<not> USE_POWER_OF_TWO_MOD cfg \<and> bucket_count cfg s = 0)"
    using assms(1) by (auto simp: bucket_for_hash_def bucket_for_hash_nb_def split: if_splits)
  then show ?thesis by (simp add: bucket_for_hash_cases bc)
qed

lemma erase_from_overflow_inv:
  assumes cfg: "static_asserts cfg" and inv: "base_inv cfg s"
    and pos: "pos < length (m_overflow_elements s)"
    and def: "bucket_for_hash cfg s h = Inr i0"
    and er: "erase_from_overflow cfg pos i s = Inr s'"
  shows "base_inv cfg s'"
    and "add_mset (m_overflow_elements s ! pos) (content s') = content s"
    and "m_nb_elements s' = m_nb_elements s - 1"
    and "m_max_load_factor s' = m_max_load_factor s"
    and "length (m_buckets s') = length (m_buckets s)"
    and "m_overflow_elements s' = list_erase (m_overflow_elements s) pos"
    and "mset (bucket_elements (m_buckets s')) = mset (bucket_elements (m_buckets s))"
proof -
  let ?ov = "list_erase (m_overflow_elements s) pos"
  let ?none = "find_if (\<lambda>v. home_of cfg (m_buckets s) (fst v) = i) ?ov = length ?ov"
  define s1 where "s1 = s\<lparr>m_overflow_elements := ?ov, m_nb_elements := m_nb_elements s - 1\<rparr>"
  have s1: "m_buckets s1 = m_buckets s" "m_overflow_elements s1 = ?ov"
    "m_nb_elements s1 = m_nb_elements s - 1" "m_max_load_factor s1 = m_max_load_factor s"
    by (simp_all add: s1_def)
  from inv have binv: "buckets_inv cfg (m_buckets s)" and fl: "overflow_flagged cfg s"
    and sz: "size (content s) \<le> m_nb_elements s"
    by (simp_all add: base_inv_def)
  have fo: "find_in_overflow_from_bucket cfg s1 i =
      find_if (\<lambda>v. home_of cfg (m_buckets s) (fst v) = i) ?ov"
    by (simp add: find_in_overflow_from_bucket_def bucket_for_hash_defined [OF def] s1)
  from er have s': "s' = (if ?none then s1\<lparr>m_buckets := (m_buckets s)[i :=
        set_overflow False (m_buckets s ! i)]\<rparr> else s1)"
    unfolding erase_from_overflow_def Let_def s1_def [symmetric]
    by (auto simp: fo s1 split: if_splits)
  have bs: "m_buckets s' =
      (if ?none then (m_buckets s)[i := set_overflow False (m_buckets s ! i)] else m_buckets s)"
    by (simp add: s' s1)
  show ov: "m_overflow_elements s' = ?ov"
    and n: "m_nb_elements s' = m_nb_elements s - 1"
    and "m_max_load_factor s' = m_max_load_factor s"
    by (simp_all add: s' s1)
  show len: "length (m_buckets s') = length (m_buckets s)" by (simp add: bs)
  have binv': "buckets_inv cfg (m_buckets s')"
    using binv set_overflow_buckets(1) [OF binv] by (simp add: bs)
  show be: "mset (bucket_elements (m_buckets s')) = mset (bucket_elements (m_buckets s))"
    using set_overflow_buckets(2) [OF binv] by (simp add: bs)
  show cont: "add_mset (m_overflow_elements s ! pos) (content s') = content s"
    using mset_list_erase [OF pos] by (simp add: content_def be ov)
  have "overflow_flagged cfg s'"
    unfolding overflow_flagged_def
  proof
    fix kv assume "kv \<in> set (m_overflow_elements s')"
    then have kv: "kv \<in> set ?ov" by (simp add: ov)
    then have "kv \<in> set (m_overflow_elements s)"
      using set_list_erase [of "m_overflow_elements s" pos] by (rule subsetD [rotated])
    with fl have flag: "home_of cfg (m_buckets s) (fst kv) < length (m_buckets s)"
      "has_overflow (m_buckets s ! home_of cfg (m_buckets s) (fst kv))"
      by (simp_all add: overflow_flagged_def)
    have home: "home_of cfg (m_buckets s') = home_of cfg (m_buckets s)"
      by (rule home_of_cong_length [OF len])
    have "has_overflow (m_buckets s' ! home_of cfg (m_buckets s) (fst kv))"
    proof (cases ?none)
      case True
      with kv have "home_of cfg (m_buckets s) (fst kv) \<noteq> i"
        by (auto simp: find_if_eq_length)
      with flag True show ?thesis by (simp add: bs)
    next
      case False
      with flag show ?thesis by (simp add: bs)
    qed
    with flag(1) len
    show "home_of cfg (m_buckets s') (fst kv) < length (m_buckets s') \<and>
        has_overflow (m_buckets s' ! home_of cfg (m_buckets s') (fst kv))"
      by (simp add: home)
  qed
  moreover have "size (content s') \<le> m_nb_elements s'"
  proof -
    have "size (content s) = Suc (size (content s'))"
      unfolding cont [symmetric] by simp
    with sz n show ?thesis by simp
  qed
  ultimately show "base_inv cfg s'" using binv' by (simp add: base_inv_def)
qed

lemma buckets_inv_replicate:
  assumes "buckets_inv cfg bs"
  shows "buckets_inv cfg (replicate (length bs) empty_bucket)"
  using assms
  by (simp add: buckets_inv_def storage_consistent_def neighborhood_consistent_def no_wraparound_def
      nb_buckets_of_def)

lemma hopscotch_clear_inv:
  assumes "base_inv cfg s"
  shows "base_inv cfg (hopscotch_clear s)" and "content (hopscotch_clear s) = {#}"
  using assms buckets_inv_replicate [of cfg "m_buckets s"]
  by (simp_all add: base_inv_def hopscotch_clear_def map_bucket_clear overflow_flagged_def content_def)

subsection \<open>The public operations keep the invariant\<close>

lemma erase_from_overflow_Inr:
  "i < length (m_buckets s) \<Longrightarrow> \<exists>s'. erase_from_overflow cfg pos i s = Inr s'"
  by (simp add: erase_from_overflow_def Let_def)

lemma hopscotch_erase_cases:
  assumes cfg: "static_asserts cfg" and inv: "base_inv cfg s"
    and hb: "home_bucket cfg s key = Inr i"
  obtains (bucket) b where
      "find_in_buckets cfg (m_buckets s) key i = i + b"
      "i + b < length (m_buckets s)"
      "\<not> is_empty (m_buckets s ! (i + b))"
      "home_of cfg (m_buckets s) (key_at (m_buckets s) (i + b)) = i"
      "m_key_equal cfg (key_at (m_buckets s) (i + b)) key"
      "hopscotch_erase cfg key s = Inr (erase_from_bucket (i + b) i s, 1)"
  | (overflow) pos s' where
      "find_in_buckets cfg (m_buckets s) key i = length (m_buckets s)"
      "\<forall>b. check_neighbor_presence (m_buckets s ! i) b \<longrightarrow>
         \<not> m_key_equal cfg (key_at (m_buckets s) (i + b)) key"
      "has_overflow (m_buckets s ! i)"
      "pos = find_if (\<lambda>v. m_key_equal cfg key (fst v)) (m_overflow_elements s)"
      "pos < length (m_overflow_elements s)"
      "m_key_equal cfg key (fst (m_overflow_elements s ! pos))"
      "erase_from_overflow cfg pos i s = Inr s'"
      "hopscotch_erase cfg key s = Inr (s', 1)"
  | (absent)
      "find_in_buckets cfg (m_buckets s) key i = length (m_buckets s)"
      "\<forall>b. check_neighbor_presence (m_buckets s ! i) b \<longrightarrow>
         \<not> m_key_equal cfg (key_at (m_buckets s) (i + b)) key"
      "has_overflow (m_buckets s ! i) \<longrightarrow>
         (\<forall>x \<in> set (m_overflow_elements s). \<not> m_key_equal cfg key (fst x))"
      "hopscotch_erase cfg key s = Inr (s, 0)"
proof -
  let ?bs = "m_buckets s"
  let ?pos = "find_if (\<lambda>v. m_key_equal cfg key (fst v)) (m_overflow_elements s)"
  from inv have binv: "buckets_inv cfg ?bs" by (simp add: base_inv_def)
  from home_bucket_Inr [OF hb] have i: "i < length ?bs" by simp
  from find_in_buckets_char [OF binv i, of key]
  consider (found) b where "find_in_buckets cfg ?bs key i = i + b" "i + b < length ?bs"
      "check_neighbor_presence (?bs ! i) b" "m_key_equal cfg (key_at ?bs (i + b)) key"
    | (none) "find_in_buckets cfg ?bs key i = length ?bs"
      "\<forall>b. check_neighbor_presence (?bs ! i) b \<longrightarrow> \<not> m_key_equal cfg (key_at ?bs (i + b)) key"
    by blast
  then show thesis
  proof cases
    case found
    from neighborhood_consistentD [OF binv i, of b] found(3)
    have "\<not> is_empty (?bs ! (i + b))" "home_of cfg ?bs (key_at ?bs (i + b)) = i"
      by simp_all
    moreover from found(1,2) have "hopscotch_erase cfg key s = Inr (erase_from_bucket (i + b) i s, 1)"
      by (simp add: hopscotch_erase_def hb Let_def)
    ultimately show thesis using found by (intro bucket [of b])
  next
    case none
    show thesis
    proof (cases "has_overflow (?bs ! i) \<and> ?pos \<noteq> length (m_overflow_elements s)")
      case True
      then have pos: "?pos < length (m_overflow_elements s)"
        using find_if_le [of "\<lambda>v. m_key_equal cfg key (fst v)" "m_overflow_elements s"] by simp
      from find_if_nth [OF pos] have eq: "m_key_equal cfg key (fst (m_overflow_elements s ! ?pos))"
        by simp
      from erase_from_overflow_Inr [OF i, of cfg ?pos]
      obtain s' where s': "erase_from_overflow cfg ?pos i s = Inr s'" by blast
      with none(1) True
      have "hopscotch_erase cfg key s = Inr (s', 1)"
        by (simp add: hopscotch_erase_def hb Let_def)
      with eq s' show thesis using none True pos by (intro overflow [of ?pos s']) simp_all
    next
      case False
      with none(1) have "hopscotch_erase cfg key s = Inr (s, 0)"
        by (auto simp: hopscotch_erase_def hb Let_def)
      moreover from False have "has_overflow (?bs ! i) \<longrightarrow>
          (\<forall>x \<in> set (m_overflow_elements s). \<not> m_key_equal cfg key (fst x))"
        by (simp add: find_if_eq_length)
      ultimately show thesis using none by (intro absent)
    qed
  qed
qed

lemma hopscotch_erase_inv:
  assumes cfg: "static_asserts cfg" and inv: "base_inv cfg s"
    and er: "hopscotch_erase cfg key s = Inr (s', r)"
  shows "base_inv cfg s'" and "content s' \<subseteq># content s"
    and "m_max_load_factor s' = m_max_load_factor s"
proof -
  from er obtain i where hb: "home_bucket cfg s key = Inr i"
    by (auto simp: hopscotch_erase_def split: sum.splits)
  note i = home_bucket_Inr [OF hb]
  have "base_inv cfg s' \<and> content s' \<subseteq># content s \<and> m_max_load_factor s' = m_max_load_factor s"
  proof (cases rule: hopscotch_erase_cases [OF cfg inv hb, case_names bucket overflow absent])
    case (bucket b)
    note e = erase_from_bucket_inv [OF cfg inv bucket(2,3) bucket(4) [symmetric]]
    from bucket(6) er have "s' = erase_from_bucket (i + b) i s" by simp
    with e(1,4) e(2) [symmetric] show ?thesis by simp
  next
    case (overflow pos t)
    from i have "bucket_for_hash cfg s (m_hash cfg key) = Inr i" by simp
    note e = erase_from_overflow_inv [OF cfg inv overflow(5) this overflow(7)]
    from overflow(8) er have "s' = t" by simp
    with e(1,4) e(2) [symmetric] show ?thesis by simp
  next
    case absent
    with er inv show ?thesis by simp
  qed
  then show "base_inv cfg s'" and "content s' \<subseteq># content s"
    and "m_max_load_factor s' = m_max_load_factor s" by simp_all
qed

lemma hopscotch_erase_pos_inv:
  assumes cfg: "static_asserts cfg" and inv: "base_inv cfg s"
    and pos: "dereferenceable s pos"
    and er: "hopscotch_erase_pos cfg pos s = Inr (s', it)"
  shows "base_inv cfg s'" and "content s' \<subseteq># content s"
    and "m_max_load_factor s' = m_max_load_factor s"
proof -
  from er obtain i where bf: "bucket_for_hash cfg s (m_hash cfg (fst (deref s pos))) = Inr i"
    by (auto simp: hopscotch_erase_pos_def split: sum.splits)
  have "base_inv cfg s' \<and> content s' \<subseteq># content s \<and> m_max_load_factor s' = m_max_load_factor s"
  proof (cases "m_buckets_iterator pos \<noteq> m_buckets_end_iterator pos")
    case True
    let ?t = "m_buckets_iterator pos"
    from pos True have t: "?t < length (m_buckets s)" "\<not> is_empty (m_buckets s ! ?t)"
      by (simp_all add: dereferenceable_def)
    have i: "i = home_of cfg (m_buckets s) (key_at (m_buckets s) ?t)"
      using True bucket_for_hash_home_of [OF bf] by (simp add: deref_def key_at_def)
    note e = erase_from_bucket_inv [OF cfg inv t i]
    from er True bf have "s' = erase_from_bucket ?t i s"
      by (auto simp: hopscotch_erase_pos_def Let_def split: if_splits)
    with e(1,4) e(2) [symmetric] show ?thesis by simp
  next
    case False
    let ?p = "m_overflow_iterator pos"
    from pos False have p: "?p < length (m_overflow_elements s)"
      by (simp add: dereferenceable_def)
    from er False bf have "erase_from_overflow cfg ?p i s = Inr s'"
      by (auto simp: hopscotch_erase_pos_def split: sum.splits)
    note e = erase_from_overflow_inv [OF cfg inv p bf this]
    from e(1,4) e(2) [symmetric] show ?thesis by simp
  qed
  then show "base_inv cfg s'" and "content s' \<subseteq># content s"
    and "m_max_load_factor s' = m_max_load_factor s" by simp_all
qed

lemma hopscotch_insert_inv:
  assumes cfg: "static_asserts cfg" and inv: "base_inv cfg s"
    and ins: "hopscotch_insert fuel cfg kv s = Inr (s', it, b)"
  shows "base_inv cfg s'" and "content s' \<subseteq># add_mset kv (content s)"
    and "m_max_load_factor s' = m_max_load_factor s"
proof -
  from ins obtain i where hb: "home_bucket cfg s (fst kv) = Inr i"
    by (auto simp: hopscotch_insert_def split: sum.splits)
  note i = home_bucket_Inr [OF hb]
  have "base_inv cfg s' \<and> content s' \<subseteq># add_mset kv (content s) \<and>
      m_max_load_factor s' = m_max_load_factor s"
  proof (cases "find_internal cfg s (fst kv) i \<noteq> hopscotch_end s")
    case True
    with ins have "s' = s" by (simp add: hopscotch_insert_def hb Let_def)
    with inv show ?thesis by simp
  next
    case False
    with ins have "insert_internal fuel cfg kv i s = Inr (s', it, b)"
      by (simp add: hopscotch_insert_def hb Let_def)
    from insert_internal_inv [OF cfg inv _ this] i show ?thesis by simp
  qed
  then show "base_inv cfg s'" and "content s' \<subseteq># add_mset kv (content s)"
    and "m_max_load_factor s' = m_max_load_factor s" by simp_all
qed

lemma try_emplace_eq: "try_emplace fuel cfg key v s = hopscotch_insert fuel cfg (key, v) s"
  by (simp add: try_emplace_def hopscotch_insert_def split: sum.splits)

lemma operator_index_inv:
  assumes cfg: "static_asserts cfg" and inv: "base_inv cfg s"
    and op: "operator_index fuel cfg dflt key s = Inr (s', it)"
  shows "base_inv cfg s'" and "content s' \<subseteq># add_mset (key, dflt) (content s)"
    and "m_max_load_factor s' = m_max_load_factor s"
proof -
  from op obtain it0 where f: "hopscotch_find cfg s key = Inr it0"
    by (auto simp: operator_index_def split: sum.splits)
  have "base_inv cfg s' \<and> content s' \<subseteq># add_mset (key, dflt) (content s) \<and>
      m_max_load_factor s' = m_max_load_factor s"
  proof (cases "it0 = hopscotch_end s")
    case True
    with op f obtain b where "hopscotch_insert fuel cfg (key, dflt) s = Inr (s', it, b)"
      by (auto simp: operator_index_def split: sum.splits)
    from hopscotch_insert_inv [OF cfg inv this] show ?thesis by simp
  next
    case False
    with op f have "s' = s" by (simp add: operator_index_def)
    with inv show ?thesis by simp
  qed
  then show "base_inv cfg s'" and "content s' \<subseteq># add_mset (key, dflt) (content s)"
    and "m_max_load_factor s' = m_max_load_factor s" by simp_all
qed

lemma hopscotch_rehash_inv:
  assumes "static_asserts cfg" and "hopscotch_rehash fuel cfg n s = Inr s'"
  shows "base_inv cfg s'" and "content s' \<subseteq># content s"
    and "m_max_load_factor s' = m_max_load_factor s"
  using rehash_internal_inv [OF assms(1) assms(2) [unfolded hopscotch_rehash_def]] by simp_all

lemma hopscotch_reserve_inv:
  assumes "static_asserts cfg" and "hopscotch_reserve fuel cfg n s = Inr s'"
  shows "base_inv cfg s'" and "content s' \<subseteq># content s"
    and "m_max_load_factor s' = m_max_load_factor s"
  using hopscotch_rehash_inv [OF assms(1) assms(2) [unfolded hopscotch_reserve_def]] by simp_all

lemma set_max_load_factor_inv:
  assumes "base_inv cfg s"
  shows "base_inv cfg (set_max_load_factor cfg ml s)"
    and "content (set_max_load_factor cfg ml s) = content s"
  using assms
  by (simp_all add: set_max_load_factor_def base_inv_def overflow_flagged_def content_def)

lemma reachable_base_inv:
  assumes cfg: "static_asserts cfg" and r: "reachable cfg s"
  shows "base_inv cfg s"
  using r
proof induction
  case (reachable_new bucket_cnt s)
  show ?case
    by (rule hopscotch_map_init_props(1) [OF cfg reachable_new.hyps(2) [unfolded hopscotch_map_new_def]])
next
  case (reachable_insert s fuel key_value s' it inserted)
  show ?case
    by (rule hopscotch_insert_inv(1) [OF cfg reachable_insert.IH reachable_insert.hyps(2)])
next
  case (reachable_try_emplace s fuel key v s' it inserted)
  show ?case
    by (rule hopscotch_insert_inv(1) [OF cfg reachable_try_emplace.IH
          reachable_try_emplace.hyps(2) [unfolded try_emplace_eq]])
next
  case (reachable_operator_index s fuel dflt key s' it)
  show ?case
    by (rule operator_index_inv(1) [OF cfg reachable_operator_index.IH
          reachable_operator_index.hyps(2)])
next
  case (reachable_erase s key s' n)
  show ?case
    by (rule hopscotch_erase_inv(1) [OF cfg reachable_erase.IH reachable_erase.hyps(2)])
next
  case (reachable_erase_pos s pos s' it)
  show ?case
    by (rule hopscotch_erase_pos_inv(1) [OF cfg reachable_erase_pos.IH
          reachable_erase_pos.hyps(2,3)])
next
  case (reachable_rehash s bucket_cnt fuel s')
  show ?case by (rule hopscotch_rehash_inv(1) [OF cfg reachable_rehash.hyps(3)])
next
  case (reachable_reserve s bucket_cnt fuel s')
  show ?case by (rule hopscotch_reserve_inv(1) [OF cfg reachable_reserve.hyps(3)])
next
  case (reachable_max_load_factor s ml)
  show ?case by (rule set_max_load_factor_inv(1) [OF reachable_max_load_factor.IH])
next
  case (reachable_clear s)
  show ?case by (rule hopscotch_clear_inv(1) [OF reachable_clear.IH])
qed

subsection \<open>The concrete maps\<close>

text \<open>The bucket arrays, overflow lists, sizes and load thresholds of the concrete maps,
  computed by the definitions of the operations.\<close>

lemma keys_0_to_3_eq:
  "keys_0_to_3 =
     \<lparr>m_buckets =
        [\<lparr>m_neighborhood_infos = 5, m_key_value = Some (0, 0)\<rparr>,
         \<lparr>m_neighborhood_infos = 5, m_key_value = Some (1, 1)\<rparr>,
         \<lparr>m_neighborhood_infos = 5, m_key_value = Some (2, 2)\<rparr>,
         \<lparr>m_neighborhood_infos = 5, m_key_value = Some (3, 3)\<rparr>] @
        replicate 15 empty_bucket,
      m_overflow_elements = [], m_nb_elements = 4,
      m_max_load_factor = DEFAULT_MAX_LOAD_FACTOR, m_load_threshold = 14\<rparr>"
  by code_simp

lemma keys_0_to_4_eq:
  "keys_0_to_4 =
     \<lparr>m_buckets =
        [\<lparr>m_neighborhood_infos = 5, m_key_value = Some (0, 0)\<rparr>,
         \<lparr>m_neighborhood_infos = 5, m_key_value = Some (1, 1)\<rparr>,
         \<lparr>m_neighborhood_infos = 5, m_key_value = Some (2, 2)\<rparr>,
         \<lparr>m_neighborhood_infos = 5, m_key_value = Some (3, 3)\<rparr>,
         \<lparr>m_neighborhood_infos = 5, m_key_value = Some (4, 4)\<rparr>] @
        replicate 14 empty_bucket,
      m_overflow_elements = [], m_nb_elements = 5,
      m_max_load_factor = DEFAULT_MAX_LOAD_FACTOR, m_load_threshold = 14\<rparr>"
  unfolding keys_0_to_4_def keys_0_to_3_eq by code_simp

lemma keys_0_to_3_and_16_eq:
  "keys_0_to_3_and_16 =
     \<lparr>m_buckets =
        [\<lparr>m_neighborhood_infos = 13, m_key_value = Some (0, 0)\<rparr>,
         \<lparr>m_neighborhood_infos = 33, m_key_value = Some (16, 16)\<rparr>,
         \<lparr>m_neighborhood_infos = 5, m_key_value = Some (2, 2)\<rparr>,
         \<lparr>m_neighborhood_infos = 5, m_key_value = Some (3, 3)\<rparr>,
         \<lparr>m_neighborhood_infos = 1, m_key_value = Some (1, 1)\<rparr>] @
        replicate 14 empty_bucket,
      m_overflow_elements = [], m_nb_elements = 5,
      m_max_load_factor = DEFAULT_MAX_LOAD_FACTOR, m_load_threshold = 14\<rparr>"
  unfolding keys_0_to_3_and_16_def keys_0_to_3_eq by code_simp

lemma modulus_keys_0_to_3_and_12_eq:
  "modulus_keys_0_to_3_and_12 =
     \<lparr>m_buckets =
        [\<lparr>m_neighborhood_infos = 13, m_key_value = Some (0, 0)\<rparr>,
         \<lparr>m_neighborhood_infos = 33, m_key_value = Some (12, 12)\<rparr>,
         \<lparr>m_neighborhood_infos = 5, m_key_value = Some (2, 2)\<rparr>,
         \<lparr>m_neighborhood_infos = 5, m_key_value = Some (3, 3)\<rparr>,
         \<lparr>m_neighborhood_infos = 1, m_key_value = Some (1, 1)\<rparr>] @
        replicate 10 empty_bucket,
      m_overflow_elements = [], m_nb_elements = 5,
      m_max_load_factor = DEFAULT_MAX_LOAD_FACTOR, m_load_threshold = 10\<rparr>"
  by code_simp

lemma no_buckets_eq:
  "no_buckets =
     \<lparr>m_buckets = replicate 61 empty_bucket, m_overflow_elements = [], m_nb_elements = 0,
      m_max_load_factor = DEFAULT_MAX_LOAD_FACTOR, m_load_threshold = 0\<rparr>"
  by code_simp

lemma keys_1_17_0_8_eq:
  "keys_1_17_0_8 =
     \<lparr>m_buckets =
        [\<lparr>m_neighborhood_infos = 5, m_key_value = Some (0, 0)\<rparr>,
         \<lparr>m_neighborhood_infos = 7, m_key_value = Some (1, 1)\<rparr>] @
        replicate 6 empty_bucket @
        [\<lparr>m_neighborhood_infos = 5, m_key_value = Some (8, 8)\<rparr>] @
        replicate 7 empty_bucket,
      m_overflow_elements = [(17, 17)], m_nb_elements = 4,
      m_max_load_factor = DEFAULT_MAX_LOAD_FACTOR, m_load_threshold = 14\<rparr>"
  by code_simp

lemma keys_1_17_0_8_rehashed_eq:
  "keys_1_17_0_8_rehashed =
     \<lparr>m_buckets =
        [\<lparr>m_neighborhood_infos = 7, m_key_value = Some (0, 0)\<rparr>,
         \<lparr>m_neighborhood_infos = 7, m_key_value = Some (1, 1)\<rparr>] @
        replicate 6 empty_bucket,
      m_overflow_elements = [(17, 17)], m_nb_elements = 4,
      m_max_load_factor = DEFAULT_MAX_LOAD_FACTOR, m_load_threshold = 7\<rparr>"
  unfolding keys_1_17_0_8_rehashed_def keys_1_17_0_8_eq by code_simp

lemma keys_rehashed_2_3_4_eq:
  "keys_rehashed_2_3_4 =
     \<lparr>m_buckets =
        [\<lparr>m_neighborhood_infos = 7, m_key_value = Some (0, 0)\<rparr>,
         \<lparr>m_neighborhood_infos = 7, m_key_value = Some (1, 1)\<rparr>,
         \<lparr>m_neighborhood_infos = 5, m_key_value = Some (2, 2)\<rparr>,
         \<lparr>m_neighborhood_infos = 5, m_key_value = Some (3, 3)\<rparr>,
         \<lparr>m_neighborhood_infos = 5, m_key_value = Some (4, 4)\<rparr>] @
        replicate 3 empty_bucket,
      m_overflow_elements = [(17, 17)], m_nb_elements = 7,
      m_max_load_factor = DEFAULT_MAX_LOAD_FACTOR, m_load_threshold = 7\<rparr>"
  unfolding keys_rehashed_2_3_4_def keys_1_17_0_8_rehashed_eq by code_simp

subsection \<open>The concrete maps are reachable\<close>

lemma reachable_new_map:
  fixes cfg :: "'k config"
  assumes "bucket_cnt < 2 ^ 64"
    and "\<not> isl (hopscotch_map_new cfg bucket_cnt :: error + ('k, 'v) hopscotch_map)"
  shows "reachable cfg (new_map cfg bucket_cnt :: ('k, 'v) hopscotch_map)"
proof (cases "hopscotch_map_new cfg bucket_cnt :: error + ('k, 'v) hopscotch_map")
  case (Inl e)
  with assms(2) show ?thesis by simp
next
  case (Inr s)
  from reachable_new [OF assms(1) Inr] Inr show ?thesis by (simp add: new_map_def)
qed

lemma reachable_after_insert: "reachable cfg s \<Longrightarrow> reachable cfg (after_insert cfg kv s)"
  unfolding after_insert_def
  by (cases "hopscotch_insert 16 cfg kv s") (auto intro: reachable_insert)

lemma reachable_after_rehash:
  "reachable cfg s \<Longrightarrow> n < 2 ^ 64 \<Longrightarrow> reachable cfg (after_rehash cfg n s)"
  unfolding after_rehash_def
  by (cases "hopscotch_rehash 16 cfg n s") (auto intro: reachable_rehash)

lemma static_asserts_example_config:
  "0 < N \<Longrightarrow> N \<le> 62 \<Longrightarrow> static_asserts (example_config N num den h)"
  by (simp add: static_asserts_def example_config_def MAX_NEIGHBORHOOD_SIZE_def
      NB_RESERVED_BITS_IN_NEIGHBORHOOD_def)

lemma modulus_config_not_power_of_two: "\<not> USE_POWER_OF_TWO_MOD (modulus_config N)"
  by (simp add: USE_POWER_OF_TWO_MOD_def modulus_config_def example_config_def is_power_of_two_def)

lemma reachable_keys_0_to_3: "reachable (identity_config 4) keys_0_to_3"
proof -
  have "\<not> isl (hopscotch_map_new (identity_config 4) 16 :: error + (nat, nat) hopscotch_map)"
    by code_simp
  then show ?thesis
    unfolding keys_0_to_3_def by (intro reachable_after_insert reachable_new_map) simp_all
qed

lemma reachable_keys_0_to_3_and_16: "reachable (identity_config 4) keys_0_to_3_and_16"
  unfolding keys_0_to_3_and_16_def by (intro reachable_after_insert reachable_keys_0_to_3)

lemma reachable_keys_0_to_4: "reachable (identity_config 4) keys_0_to_4"
  unfolding keys_0_to_4_def by (intro reachable_after_insert reachable_keys_0_to_3)

lemma reachable_modulus_keys_0_to_3_and_12:
  "reachable (modulus_config 4) modulus_keys_0_to_3_and_12"
proof -
  have "\<not> isl (hopscotch_map_new (modulus_config 4) 12 :: error + (nat, nat) hopscotch_map)"
    by code_simp
  then show ?thesis
    unfolding modulus_keys_0_to_3_and_12_def
    by (intro reachable_after_insert reachable_new_map) simp_all
qed

lemma reachable_no_buckets: "reachable (modulus_config 62) no_buckets"
proof -
  have "\<not> isl (hopscotch_map_new (modulus_config 62) 0 :: error + (nat, nat) hopscotch_map)"
    by code_simp
  then show ?thesis
    unfolding no_buckets_def by (intro reachable_new_map) simp_all
qed

lemma reachable_keys_1_17_0_8: "reachable (identity_config 1) keys_1_17_0_8"
proof -
  have "\<not> isl (hopscotch_map_new (identity_config 1) 16 :: error + (nat, nat) hopscotch_map)"
    by code_simp
  then show ?thesis
    unfolding keys_1_17_0_8_def by (intro reachable_after_insert reachable_new_map) simp_all
qed

lemma reachable_keys_1_17_0_8_rehashed: "reachable (identity_config 1) keys_1_17_0_8_rehashed"
  unfolding keys_1_17_0_8_rehashed_def
  by (intro reachable_after_rehash reachable_keys_1_17_0_8) simp

lemma reachable_keys_rehashed_2_3_4: "reachable (identity_config 1) keys_rehashed_2_3_4"
  unfolding keys_rehashed_2_3_4_def
  by (intro reachable_after_insert reachable_keys_1_17_0_8_rehashed)

subsection \<open>The neighborhood invariant\<close>

text \<open>
  C1. Neighborhood consistency: in every state reachable by the public operations, for
  every bucket \<open>i\<close>, bit \<open>b\<close> of its neighborhood bitmap is set if and only if the bucket
  \<open>i + b\<close> is occupied and the home \<open>h(key) mod B\<close> of the key stored there is \<open>i\<close>; and
  every occupied bucket \<open>j\<close> whose key has home \<open>i\<close> satisfies \<open>i \<le> j < i + N\<close>. This holds
  for every instance of the class: the only hypothesis on the configuration is the
  class's \<open>static_assert\<close> on \<open>NeighborhoodSize\<close>.
\<close>

theorem neighborhood_invariant:
  assumes "static_asserts cfg" and "reachable cfg s"
  shows "(\<forall>i < length (m_buckets s). \<forall>b.
            check_neighbor_presence (m_buckets s ! i) b \<longleftrightarrow>
              i + b < length (m_buckets s) \<and> \<not> is_empty (m_buckets s ! (i + b)) \<and>
              m_hash cfg (fst (get_key_value (m_buckets s ! (i + b)))) mod bucket_count cfg s = i) \<and>
         (\<forall>j < length (m_buckets s). \<not> is_empty (m_buckets s ! j) \<longrightarrow>
            m_hash cfg (fst (get_key_value (m_buckets s ! j))) mod bucket_count cfg s \<le> j \<and>
            j < m_hash cfg (fst (get_key_value (m_buckets s ! j))) mod bucket_count cfg s +
                  NeighborhoodSize cfg)"
proof -
  from reachable_base_inv [OF assms] have inv: "buckets_inv cfg (m_buckets s)"
    by (simp add: base_inv_def)
  have home: "home_of cfg (m_buckets s) key = m_hash cfg key mod bucket_count cfg s" for key
    using home_of_mod [OF inv] by simp
  show ?thesis
    using neighborhood_consistentD [OF inv] no_wraparoundD [OF inv]
    by (simp add: home [symmetric] key_at_def)
qed

theorem neighborhood_invariant_witness:
  "static_asserts (modulus_config 4) \<and> \<not> USE_POWER_OF_TWO_MOD (modulus_config 4) \<and>
   reachable (modulus_config 4) modulus_keys_0_to_3_and_12 \<and>
   bucket_count (modulus_config 4) modulus_keys_0_to_3_and_12 = 12 \<and>
   check_neighbor_presence (m_buckets modulus_keys_0_to_3_and_12 ! 1) 3 \<and>
   \<not> check_neighbor_presence (m_buckets modulus_keys_0_to_3_and_12 ! 1) 0 \<and>
   \<not> is_empty (m_buckets modulus_keys_0_to_3_and_12 ! 4) \<and>
   m_hash (modulus_config 4) (fst (get_key_value (m_buckets modulus_keys_0_to_3_and_12 ! 4)))
     mod bucket_count (modulus_config 4) modulus_keys_0_to_3_and_12 = 1"
proof -
  have cfg: "static_asserts (modulus_config 4)"
    by (simp add: modulus_config_def static_asserts_example_config)
  have len: "1 < length (m_buckets modulus_keys_0_to_3_and_12)"
    and bc: "bucket_count (modulus_config 4) modulus_keys_0_to_3_and_12 = 12"
    unfolding modulus_keys_0_to_3_and_12_eq by code_simp+
  have bit: "check_neighbor_presence (m_buckets modulus_keys_0_to_3_and_12 ! 1) 3"
    "\<not> check_neighbor_presence (m_buckets modulus_keys_0_to_3_and_12 ! 1) 0"
    unfolding modulus_keys_0_to_3_and_12_eq by code_simp+
  from neighborhood_invariant [OF cfg reachable_modulus_keys_0_to_3_and_12] len bit(1)
  have "\<not> is_empty (m_buckets modulus_keys_0_to_3_and_12 ! (1 + 3)) \<and>
    m_hash (modulus_config 4) (fst (get_key_value (m_buckets modulus_keys_0_to_3_and_12 ! (1 + 3))))
     mod bucket_count (modulus_config 4) modulus_keys_0_to_3_and_12 = 1"
    by blast
  with cfg modulus_config_not_power_of_two reachable_modulus_keys_0_to_3_and_12 bit bc
  show ?thesis by simp
qed

subsection \<open>A map without buckets\<close>

text \<open>
  When the growth factor is not a power of two, the constructor and \<open>rehash_internal\<close>
  take the requested bucket count as it is, where the power-of-two mode rounds it up and
  so never goes below 1. With \<open>std::ratio<3, 2>\<close> the map constructed with
  \<open>bucket_count = 0\<close> has \<open>NeighborhoodSize - 1\<close> buckets in its array and
  \<open>bucket_count() = 0\<close>, and every operation that starts with \<open>bucket_for_hash\<close> computes
  \<open>hash % 0\<close>. An empty map reaches the same state by \<open>rehash(0)\<close>.
\<close>

lemma rehash_0_of_empty_map:
  "hopscotch_rehash 16 (modulus_config 62) 0 (new_map (modulus_config 62) 16) = Inr no_buckets"
  unfolding no_buckets_eq by code_simp

text \<open>
  C2. \<open>find(k)\<close> returns the position of the first entry of the neighborhood of the home
  bucket \<open>h(k) mod B\<close> that is equal to \<open>k\<close>, else of the first such entry of the overflow
  list, else \<open>end\<close>. On the map constructed with \<open>bucket_count = 0\<close> and the growth factor
  \<open>std::ratio<3, 2>\<close> the logical bucket count \<open>B\<close> is 0 and \<open>find(1)\<close> returns no
  iterator: it divides by zero.
\<close>

theorem find_divides_by_zero:
  "hopscotch_map_new (modulus_config 62) 0 = Inr no_buckets \<and>
   length (m_buckets no_buckets) = 61 \<and>
   bucket_count (modulus_config 62) no_buckets = 0 \<and>
   hopscotch_find (modulus_config 62) no_buckets 1 = Inl division_by_zero"
  unfolding no_buckets_eq by (intro conjI; code_simp)

text \<open>
  C8. \<open>erase(k)\<close> returns 1 and removes the entry when an entry with a key equal to \<open>k\<close>
  is present, and returns 0 when \<open>k\<close> is absent. On the map constructed with
  \<open>bucket_count = 0\<close> and the growth factor \<open>std::ratio<3, 2>\<close> no key is present, and
  \<open>erase(1)\<close> does not return 0: it divides by zero.
\<close>

theorem erase_divides_by_zero:
  "bucket_elements (m_buckets no_buckets) = [] \<and>
   m_overflow_elements no_buckets = [] \<and>
   hopscotch_erase (modulus_config 62) 1 no_buckets = Inl division_by_zero"
  unfolding no_buckets_eq by (intro conjI; code_simp)

text \<open>
  C9. \<open>at(k)\<close> throws \<open>std::out_of_range\<close> if and only if no entry with a key equal to
  \<open>k\<close> is present. On the map constructed with \<open>bucket_count = 0\<close> and the growth factor
  \<open>std::ratio<3, 2>\<close> no key is present, and \<open>at(1)\<close> does not throw \<open>std::out_of_range\<close>:
  it divides by zero.
\<close>

theorem at_divides_by_zero:
  "m_nb_elements no_buckets = 0 \<and>
   hopscotch_count (modulus_config 62) no_buckets 1 = Inl division_by_zero \<and>
   hopscotch_at (modulus_config 62) no_buckets 1 = Inl division_by_zero"
  unfolding no_buckets_eq by (intro conjI; code_simp)

subsection \<open>The rehash of nothrow move constructible values\<close>

text \<open>
  The overload of \<open>rehash_internal\<close> for a nothrow move constructible \<open>value_type\<close> moves
  the entries of the buckets into the new map with \<open>insert_internal\<close>, and then swaps the
  old overflow list into the new map when that list is not empty. An entry that
  \<open>insert_internal\<close> has put into the overflow list of the new map (the source's comment
  and its \<open>assert(tmp_map.m_overflow_elements.empty())\<close> say that there is none) is lost
  by the swap, while its home bucket keeps its overflow flag and \<open>m_nb_elements\<close> still
  counts it. With neighborhood size 1, the identity hash and 16 buckets, the keys 1, 17,
  0 and 8 give such a map: 17 is in the overflow list, and \<open>rehash(1)\<close> makes 8 buckets,
  where 8 has the home bucket of 0.
\<close>

lemma content_keys_1_17_0_8:
  "content keys_1_17_0_8 = {#(0, 0), (1, 1), (8, 8), (17, 17)#}"
proof -
  have "bucket_elements (m_buckets keys_1_17_0_8) = [(0, 0), (1, 1), (8, 8)]"
    and "m_overflow_elements keys_1_17_0_8 = [(17, 17)]"
    unfolding keys_1_17_0_8_eq by code_simp+
  then show ?thesis by (simp add: content_def)
qed

lemma content_keys_1_17_0_8_rehashed:
  "content keys_1_17_0_8_rehashed = {#(0, 0), (1, 1), (17, 17)#}"
proof -
  have "bucket_elements (m_buckets keys_1_17_0_8_rehashed) = [(0, 0), (1, 1)]"
    and "m_overflow_elements keys_1_17_0_8_rehashed = [(17, 17)]"
    unfolding keys_1_17_0_8_rehashed_eq by code_simp+
  then show ?thesis by (simp add: content_def)
qed

lemma rehash_keys_1_17_0_8:
  "hopscotch_rehash 16 (identity_config 1) 1 keys_1_17_0_8 = Inr keys_1_17_0_8_rehashed"
  unfolding keys_1_17_0_8_rehashed_eq unfolding keys_1_17_0_8_eq by code_simp

text \<open>
  C7. After \<open>rehash(m)\<close> the map stores the multiset of pairs it stored before, and
  \<open>find(k)\<close> succeeds for exactly the keys that were present. In the map with the keys
  1, 17, 0 and 8, \<open>find(8)\<close> is the position of bucket 8; \<open>rehash(1)\<close> returns a map with 8
  buckets that stores the pairs of 0, 1 and 17 only, and in which \<open>find(8)\<close> is \<open>end\<close>.
\<close>

theorem rehash_loses_an_entry:
  "hopscotch_find (identity_config 1) keys_1_17_0_8 8 = Inr (bucket_iterator keys_1_17_0_8 8) \<and>
   content keys_1_17_0_8 = {#(0, 0), (1, 1), (8, 8), (17, 17)#} \<and>
   hopscotch_rehash 16 (identity_config 1) 1 keys_1_17_0_8 = Inr keys_1_17_0_8_rehashed \<and>
   bucket_count (identity_config 1) keys_1_17_0_8_rehashed = 8 \<and>
   content keys_1_17_0_8_rehashed = {#(0, 0), (1, 1), (17, 17)#} \<and>
   hopscotch_find (identity_config 1) keys_1_17_0_8_rehashed 8 =
     Inr (hopscotch_end keys_1_17_0_8_rehashed) \<and>
   m_nb_elements keys_1_17_0_8_rehashed = 4"
proof -
  have "hopscotch_find (identity_config 1) keys_1_17_0_8 8 = Inr (bucket_iterator keys_1_17_0_8 8)"
    unfolding keys_1_17_0_8_eq by code_simp
  moreover have "bucket_count (identity_config 1) keys_1_17_0_8_rehashed = 8"
    and "hopscotch_find (identity_config 1) keys_1_17_0_8_rehashed 8 =
      Inr (hopscotch_end keys_1_17_0_8_rehashed)"
    and "m_nb_elements keys_1_17_0_8_rehashed = 4"
    unfolding keys_1_17_0_8_rehashed_eq by code_simp+
  ultimately show ?thesis
    using content_keys_1_17_0_8 content_keys_1_17_0_8_rehashed rehash_keys_1_17_0_8
    by simp
qed

text \<open>
  C6. The overflow flag of bucket \<open>i\<close> is set if and only if the overflow list holds an
  entry whose home bucket is \<open>i\<close>, and a rehash re-establishes the flags. After the
  \<open>rehash(1)\<close> of the map with the keys 1, 17, 0 and 8, the overflow flag of bucket 0 is
  set, and the only entry of the overflow list is the one of key 17, whose home bucket
  is 1.
\<close>

theorem overflow_flag_without_entry:
  "hopscotch_rehash 16 (identity_config 1) 1 keys_1_17_0_8 = Inr keys_1_17_0_8_rehashed \<and>
   has_overflow (m_buckets keys_1_17_0_8_rehashed ! 0) \<and>
   m_overflow_elements keys_1_17_0_8_rehashed = [(17, 17)] \<and>
   bucket_for_hash (identity_config 1) keys_1_17_0_8_rehashed (m_hash (identity_config 1) 17) =
     Inr 1"
proof -
  have "has_overflow (m_buckets keys_1_17_0_8_rehashed ! 0)"
    and "m_overflow_elements keys_1_17_0_8_rehashed = [(17, 17)]"
    and "bucket_for_hash (identity_config 1) keys_1_17_0_8_rehashed
           (m_hash (identity_config 1) 17) = Inr 1"
    unfolding keys_1_17_0_8_rehashed_eq by code_simp+
  with rehash_keys_1_17_0_8 show ?thesis by simp
qed

text \<open>
  C3. \<open>insert\<close> of a pair whose key is absent returns \<open>true\<close> and increases the size by
  one. After the \<open>rehash(1)\<close> of the map with the keys 1, 17, 0 and 8 and the insertion of
  the keys 2, 3 and 4, \<open>size()\<close> is 7 and \<open>find(5)\<close> is \<open>end\<close>; \<open>insert\<close> of the pair
  \<open>(5, 5)\<close> returns \<open>true\<close> and a position in the buckets, and \<open>size()\<close> is still 7: the
  insertion rehashes, and the size of the new map no longer counts the entry lost by
  \<open>rehash(1)\<close>.
\<close>

theorem insert_of_absent_key_keeps_size:
  "m_nb_elements keys_rehashed_2_3_4 = 7 \<and>
   hopscotch_find (identity_config 1) keys_rehashed_2_3_4 5 =
     Inr (hopscotch_end keys_rehashed_2_3_4) \<and>
   map_sum id (\<lambda>(s', it, inserted). (m_nb_elements s', m_buckets_iterator it, inserted))
     (hopscotch_insert 16 (identity_config 1) (5, 5) keys_rehashed_2_3_4) = Inr (7, 5, True)"
  unfolding keys_rehashed_2_3_4_eq by (intro conjI; code_simp)

subsection \<open>The displacement of \<open>swap_empty_bucket_closer\<close>\<close>

lemma swap_empty_bucket_closer_Some:
  assumes "swap_empty_bucket_closer cfg bs e = Some (bs', e')"
  shows "\<exists>c b. e + 1 - NeighborhoodSize cfg \<le> c \<and> c < e \<and> c + b < e \<and>
           check_neighbor_presence (bs ! c) b \<and>
           (\<forall>c' b'. e + 1 - NeighborhoodSize cfg \<le> c' \<and> c' < c \<and> c' + b' < e \<longrightarrow>
              \<not> check_neighbor_presence (bs ! c') b') \<and>
           (\<forall>b'. b' < b \<longrightarrow> \<not> check_neighbor_presence (bs ! c) b') \<and>
           e' = c + b \<and> bs' = move_to_empty_bucket bs e c (c + b)"
proof -
  from assms
  have cand: "swap_closer_candidates bs e (e + 1 - NeighborhoodSize cfg) = Some (bs', e')"
    by (auto simp: swap_empty_bucket_closer_def split: if_splits)
  from swap_closer_candidates_Some [OF cand] show ?thesis by auto
qed

lemma swap_empty_bucket_closer_None:
  assumes "swap_empty_bucket_closer cfg bs e = None" and "NeighborhoodSize cfg \<le> e + 1"
  shows "\<forall>c b. e + 1 - NeighborhoodSize cfg \<le> c \<and> c + b < e \<longrightarrow>
           \<not> check_neighbor_presence (bs ! c) b"
proof -
  from assms
  have cand: "swap_closer_candidates bs e (e + 1 - NeighborhoodSize cfg) = None"
    by (auto simp: swap_empty_bucket_closer_def split: if_splits)
  from swap_closer_candidates_None [OF cand] show ?thesis .
qed

text \<open>
  C5. \<open>swap_empty_bucket_closer\<close> for the empty bucket \<open>e\<close> takes the lowest bucket \<open>c\<close> of
  \<open>[e - N + 1, e)\<close> whose neighborhood bitmap has a set bit for a bucket before \<open>e\<close>, and
  the lowest set bit \<open>b\<close> of that bitmap: the entry of bucket \<open>c + b\<close> moves to \<open>e\<close>, and
  \<open>c + b\<close> is the new empty bucket. It returns \<open>false\<close> only when no bucket of the range
  has such a bit. With \<open>N = 4\<close>, the identity hash and 16 buckets, after the keys 0, 1, 2
  and 3 the key 16, whose home bucket is 0, finds the empty bucket 4 and triggers the
  displacement: the entry of bucket 1 moves to bucket 4, the bitmap of bucket 1 loses
  bit 0 and gets bit 3 (its metadata word is \<open>2 ^ 5 = 32\<close>), and no other bucket changes,
  so the bitmap of bucket 0 is the same; the insertion then stores the key 16 in
  bucket 1 and sets bit 1 in the bitmap of bucket 0.
\<close>

theorem hop_closer_lowest_candidate:
  "(\<forall>bs' e'. swap_empty_bucket_closer cfg bs e = Some (bs', e') \<longrightarrow>
      (\<exists>c b. e + 1 - NeighborhoodSize cfg \<le> c \<and> c < e \<and> c + b < e \<and>
         check_neighbor_presence (bs ! c) b \<and>
         (\<forall>c' b'. e + 1 - NeighborhoodSize cfg \<le> c' \<and> c' < c \<and> c' + b' < e \<longrightarrow>
            \<not> check_neighbor_presence (bs ! c') b') \<and>
         (\<forall>b'. b' < b \<longrightarrow> \<not> check_neighbor_presence (bs ! c) b') \<and>
         e' = c + b \<and> bs' = move_to_empty_bucket bs e c (c + b))) \<and>
   (swap_empty_bucket_closer cfg bs e = None \<and> NeighborhoodSize cfg \<le> e + 1 \<longrightarrow>
      (\<forall>c b. e + 1 - NeighborhoodSize cfg \<le> c \<and> c + b < e \<longrightarrow>
         \<not> check_neighbor_presence (bs ! c) b)) \<and>
   home_bucket (identity_config 4) keys_0_to_3 16 = Inr 0 \<and>
   find_empty_bucket (m_buckets keys_0_to_3) 0 = 4 \<and>
   get_key_value (m_buckets keys_0_to_3 ! 1) = (1, 1) \<and>
   swap_empty_bucket_closer (identity_config 4) (m_buckets keys_0_to_3) 4 =
     Some ((m_buckets keys_0_to_3)
             [1 := \<lparr>m_neighborhood_infos = 32, m_key_value = None\<rparr>,
              4 := \<lparr>m_neighborhood_infos = 1, m_key_value = Some (1, 1)\<rparr>], 1) \<and>
   hopscotch_insert 16 (identity_config 4) (16, 16) keys_0_to_3 =
     Inr (keys_0_to_3_and_16, bucket_iterator keys_0_to_3_and_16 1, True) \<and>
   m_buckets keys_0_to_3_and_16 =
     (m_buckets keys_0_to_3)
       [0 := \<lparr>m_neighborhood_infos = 13, m_key_value = Some (0, 0)\<rparr>,
        1 := \<lparr>m_neighborhood_infos = 33, m_key_value = Some (16, 16)\<rparr>,
        4 := \<lparr>m_neighborhood_infos = 1, m_key_value = Some (1, 1)\<rparr>] \<and>
   get_key_value (m_buckets keys_0_to_3_and_16 ! 4) = (1, 1) \<and>
   \<not> check_neighbor_presence (m_buckets keys_0_to_3_and_16 ! 1) 0 \<and>
   check_neighbor_presence (m_buckets keys_0_to_3_and_16 ! 1) 3 \<and>
   check_neighbor_presence (m_buckets keys_0_to_3_and_16 ! 0) 0 \<and>
   check_neighbor_presence (m_buckets keys_0_to_3_and_16 ! 0) 1"
proof -
  have "home_bucket (identity_config 4) keys_0_to_3 16 = Inr 0"
    and "find_empty_bucket (m_buckets keys_0_to_3) 0 = 4"
    and "get_key_value (m_buckets keys_0_to_3 ! 1) = (1, 1)"
    and "swap_empty_bucket_closer (identity_config 4) (m_buckets keys_0_to_3) 4 =
     Some ((m_buckets keys_0_to_3)
             [1 := \<lparr>m_neighborhood_infos = 32, m_key_value = None\<rparr>,
              4 := \<lparr>m_neighborhood_infos = 1, m_key_value = Some (1, 1)\<rparr>], 1)"
    unfolding keys_0_to_3_eq by code_simp+
  moreover have "hopscotch_insert 16 (identity_config 4) (16, 16) keys_0_to_3 =
     Inr (keys_0_to_3_and_16, bucket_iterator keys_0_to_3_and_16 1, True)"
    and "m_buckets keys_0_to_3_and_16 =
     (m_buckets keys_0_to_3)
       [0 := \<lparr>m_neighborhood_infos = 13, m_key_value = Some (0, 0)\<rparr>,
        1 := \<lparr>m_neighborhood_infos = 33, m_key_value = Some (16, 16)\<rparr>,
        4 := \<lparr>m_neighborhood_infos = 1, m_key_value = Some (1, 1)\<rparr>]"
    unfolding keys_0_to_3_and_16_eq unfolding keys_0_to_3_eq by code_simp+
  moreover have "get_key_value (m_buckets keys_0_to_3_and_16 ! 4) = (1, 1)"
    and "\<not> check_neighbor_presence (m_buckets keys_0_to_3_and_16 ! 1) 0"
    and "check_neighbor_presence (m_buckets keys_0_to_3_and_16 ! 1) 3"
    and "check_neighbor_presence (m_buckets keys_0_to_3_and_16 ! 0) 0"
    and "check_neighbor_presence (m_buckets keys_0_to_3_and_16 ! 0) 1"
    unfolding keys_0_to_3_and_16_eq by code_simp+
  moreover note swap_empty_bucket_closer_Some [of cfg bs e]
    swap_empty_bucket_closer_None [of cfg bs e]
  ultimately show ?thesis by (intro conjI allI impI) (simp_all only: HOL.simp_thms)
qed

theorem hop_closer_lowest_candidate_witness:
  "swap_empty_bucket_closer (identity_config 4) (m_buckets keys_0_to_3) 4 =
     Some ((m_buckets keys_0_to_3)
             [1 := \<lparr>m_neighborhood_infos = 32, m_key_value = None\<rparr>,
              4 := \<lparr>m_neighborhood_infos = 1, m_key_value = Some (1, 1)\<rparr>], 1) \<and>
   (\<exists>c b. 1 \<le> c \<and> c < 4 \<and> check_neighbor_presence (m_buckets keys_0_to_3 ! c) b \<and>
      1 = c + b \<and>
      (m_buckets keys_0_to_3)
         [1 := \<lparr>m_neighborhood_infos = 32, m_key_value = None\<rparr>,
          4 := \<lparr>m_neighborhood_infos = 1, m_key_value = Some (1, 1)\<rparr>] =
        move_to_empty_bucket (m_buckets keys_0_to_3) 4 c (c + b))"
proof -
  have N: "4 + 1 - NeighborhoodSize (identity_config 4) = 1"
    by (simp add: identity_config_def example_config_def)
  note inst = hop_closer_lowest_candidate
    [where cfg = "identity_config 4" and bs = "m_buckets keys_0_to_3" and e = 4, unfolded N]
  from inst have swap: "swap_empty_bucket_closer (identity_config 4) (m_buckets keys_0_to_3) 4 =
     Some ((m_buckets keys_0_to_3)
             [1 := \<lparr>m_neighborhood_infos = 32, m_key_value = None\<rparr>,
              4 := \<lparr>m_neighborhood_infos = 1, m_key_value = Some (1, 1)\<rparr>], 1)"
    by blast
  from inst have "\<forall>bs' e'. swap_empty_bucket_closer (identity_config 4) (m_buckets keys_0_to_3) 4 =
        Some (bs', e') \<longrightarrow>
      (\<exists>c b. 1 \<le> c \<and> c < 4 \<and> check_neighbor_presence (m_buckets keys_0_to_3 ! c) b \<and>
         e' = c + b \<and> bs' = move_to_empty_bucket (m_buckets keys_0_to_3) 4 c (c + b))"
    by blast
  with swap show ?thesis by blast
qed

text \<open>The fifth key 4 has the home bucket 4, which is empty: it is stored there, and no
  entry is displaced.\<close>

theorem fifth_key_4_is_stored_in_its_home_bucket:
  "home_bucket (identity_config 4) keys_0_to_3 4 = Inr 4 \<and>
   find_empty_bucket (m_buckets keys_0_to_3) 4 = 4 \<and>
   closer_loop (identity_config 4) (m_buckets keys_0_to_3) 4 4 = (m_buckets keys_0_to_3, 4, True) \<and>
   hopscotch_insert 16 (identity_config 4) (4, 4) keys_0_to_3 =
     Inr (keys_0_to_4, bucket_iterator keys_0_to_4 4, True) \<and>
   m_buckets keys_0_to_4 =
     (m_buckets keys_0_to_3)[4 := \<lparr>m_neighborhood_infos = 5, m_key_value = Some (4, 4)\<rparr>] \<and>
   get_key_value (m_buckets keys_0_to_4 ! 1) = (1, 1) \<and>
   get_key_value (m_buckets keys_0_to_4 ! 4) = (4, 4) \<and>
   check_neighbor_presence (m_buckets keys_0_to_4 ! 1) 0 \<and>
   \<not> check_neighbor_presence (m_buckets keys_0_to_4 ! 1) 3"
proof -
  have "home_bucket (identity_config 4) keys_0_to_3 4 = Inr 4"
    and "find_empty_bucket (m_buckets keys_0_to_3) 4 = 4"
    and "closer_loop (identity_config 4) (m_buckets keys_0_to_3) 4 4 =
      (m_buckets keys_0_to_3, 4, True)"
    unfolding keys_0_to_3_eq by code_simp+
  moreover have "hopscotch_insert 16 (identity_config 4) (4, 4) keys_0_to_3 =
     Inr (keys_0_to_4, bucket_iterator keys_0_to_4 4, True)"
    and "m_buckets keys_0_to_4 =
     (m_buckets keys_0_to_3)[4 := \<lparr>m_neighborhood_infos = 5, m_key_value = Some (4, 4)\<rparr>]"
    unfolding keys_0_to_4_eq unfolding keys_0_to_3_eq by code_simp+
  moreover have "get_key_value (m_buckets keys_0_to_4 ! 1) = (1, 1)"
    and "get_key_value (m_buckets keys_0_to_4 ! 4) = (4, 4)"
    and "check_neighbor_presence (m_buckets keys_0_to_4 ! 1) 0"
    and "\<not> check_neighbor_presence (m_buckets keys_0_to_4 ! 1) 3"
    unfolding keys_0_to_4_eq by code_simp+
  ultimately show ?thesis by (simp only: HOL.simp_thms)
qed

end
